theory Spec2Isabelle
  imports Complex_Main "HOL-Library.AList" "HOL-Library.Multiset"
begin

section \<open>Data model\<close>

text \<open>
  The Python exceptions that the modelled code can raise. \<open>ValueError\<close> is what the
  sources raise explicitly; \<open>KeyError\<close> comes from a dictionary subscript on a missing
  key, \<open>ZeroDivisionError\<close> from \<open>/\<close> with a zero divisor, \<open>AttributeError\<close> from
  calling \<open>update\<close> on \<open>None\<close>, \<open>IndexError\<close> from \<open>random.choice\<close> on an empty list,
  \<open>NotImplementedError\<close> from the abstract predictor.
\<close>

datatype error =
  ValueError | KeyError | IndexError | ZeroDivisionError | AttributeError | NotImplementedError

text \<open>
  Representation of vertex objects. \<open>Graph.add_vertex\<close> is the only place that creates a
  vertex object, it stores the object under its own item and never replaces or removes
  it, and the vertex classes define neither \<open>__eq__\<close> nor \<open>__hash__\<close>. So inside one graph
  a vertex object is identified by its item, and a reference to a vertex (a member of
  \<open>neighbours\<close>) is modelled by the item of that vertex; \<open>v.item\<close> of a reference is the
  reference itself, and a field of the referenced object is read through the graph.

  A Python \<open>set\<close> is a HOL set with \<open>card\<close> for \<open>len\<close>; a Python \<open>dict\<close> is an
  association list in insertion order (\<open>AList.update\<close> is the subscript assignment:
  it overwrites in place or appends). Similarity scores and weights are exact rationals
  where Python has floats and integers.
\<close>

record 'a vertex =
  item :: 'a
  kind :: string
  neighbours :: "'a set"

type_synonym 'a graph = "('a \<times> 'a vertex) list"

record 'a wvertex =
  w_item :: 'a
  w_kind :: string
  w_neighbours :: "('a \<times> rat) list"

type_synonym 'a wgraph = "('a \<times> 'a wvertex) list"

text \<open>
  What \<open>recommend_books\<close> returns is a list whose elements are either item keys
  (\<open>x.item\<close>, line 157 of part1.py) or the vertex objects themselves.
\<close>

datatype ('a, 'v) entry = Title 'a | VertexObj 'v

section \<open>part1.py: \<open>_Vertex\<close> and \<open>Graph\<close>\<close>

definition Vertex_init :: "'a \<Rightarrow> string \<Rightarrow> 'a vertex" where
  "Vertex_init it k = \<lparr>item = it, kind = k, neighbours = {}\<rparr>"

definition degree :: "'a vertex \<Rightarrow> nat" where
  "degree v = card (neighbours v)"

definition similarity_score :: "'a vertex \<Rightarrow> 'a vertex \<Rightarrow> rat" where
  "similarity_score self other =
     (if degree self = 0 \<or> degree other = 0 then 0
      else of_nat (card (neighbours self \<inter> neighbours other)) /
           of_nat (card (neighbours self \<union> neighbours other)))"

definition Graph_init :: "'a graph" where
  "Graph_init = []"

definition add_vertex :: "'a graph \<Rightarrow> 'a \<Rightarrow> string \<Rightarrow> 'a graph" where
  "add_vertex g it k =
     (if it \<in> fst ` set g then g else g @ [(it, Vertex_init it k)])"

text \<open>\<open>v.neighbours.add(u)\<close> on the vertex stored under \<open>a\<close>.\<close>

definition neighbours_add :: "'a graph \<Rightarrow> 'a \<Rightarrow> 'a \<Rightarrow> 'a graph" where
  "neighbours_add g a u =
     AList.map_entry a (\<lambda>v. v\<lparr>neighbours := insert u (neighbours v)\<rparr>) g"

definition add_edge :: "'a graph \<Rightarrow> 'a \<Rightarrow> 'a \<Rightarrow> error + 'a graph" where
  "add_edge g item1 item2 =
     (if item1 \<in> fst ` set g \<and> item2 \<in> fst ` set g
      then Inr (neighbours_add (neighbours_add g item1 item2) item2 item1)
      else Inl ValueError)"

definition adjacent :: "'a graph \<Rightarrow> 'a \<Rightarrow> 'a \<Rightarrow> bool" where
  "adjacent g item1 item2 =
     (if item1 \<in> fst ` set g \<and> item2 \<in> fst ` set g
      then (case map_of g item1 of
              Some v1 \<Rightarrow> (\<exists>v2 \<in> neighbours v1. v2 = item2)
            | None \<Rightarrow> False)
      else False)"

definition get_neighbours :: "'a graph \<Rightarrow> 'a \<Rightarrow> error + 'a set" where
  "get_neighbours g it =
     (case map_of g it of
        Some v \<Rightarrow> Inr (neighbours v)
      | None \<Rightarrow> Inl ValueError)"

definition get_all_vertices :: "'a graph \<Rightarrow> string \<Rightarrow> 'a set" where
  "get_all_vertices g k =
     (if k \<noteq> [] then item ` Set.filter (\<lambda>v. kind v = k) (snd ` set g)
      else set (map fst g))"

definition get_similarity_score :: "'a graph \<Rightarrow> 'a \<Rightarrow> 'a \<Rightarrow> error + rat" where
  "get_similarity_score g item1 item2 =
     (if item1 \<notin> get_all_vertices g [] \<or> item2 \<notin> get_all_vertices g [] then Inl ValueError
      else (case (map_of g item1, map_of g item2) of
              (Some v1, Some v2) \<Rightarrow> Inr (similarity_score v1 v2)
            | _ \<Rightarrow> Inl KeyError))"

subsection \<open>The ranking loops of \<open>recommend_books\<close>\<close>

text \<open>
  \<open>pos_books[i], pos_books[j] = pos_books[j], pos_books[i]\<close>: both right-hand sides are
  read before the two stores.
\<close>

definition swap :: "nat \<Rightarrow> nat \<Rightarrow> 'v list \<Rightarrow> 'v list" where
  "swap i j xs = xs[i := xs ! j, j := xs ! i]"

text \<open>
  The body of the inner loop, for a score function \<open>sc\<close> (the similarity to the query
  book) and the item accessor \<open>it\<close>. Both indices are below the length of the list.
\<close>

definition rank_body :: "('v \<Rightarrow> rat) \<Rightarrow> ('v \<Rightarrow> 'a::linorder) \<Rightarrow> nat \<Rightarrow> nat \<Rightarrow> 'v list \<Rightarrow> 'v list" where
  "rank_body sc it i j xs =
     (if i > j \<and> sc (xs ! i) > sc (xs ! j) then swap i j xs
      else if i > j \<and> sc (xs ! i) = sc (xs ! j) \<and> it (xs ! i) > it (xs ! j) then swap i j xs
      else xs)"

definition rank_inner :: "('v \<Rightarrow> rat) \<Rightarrow> ('v \<Rightarrow> 'a::linorder) \<Rightarrow> nat \<Rightarrow> 'v list \<Rightarrow> 'v list" where
  "rank_inner sc it i xs = fold (rank_body sc it i) [0..<length xs] xs"

definition rank_books :: "('v \<Rightarrow> rat) \<Rightarrow> ('v \<Rightarrow> 'a::linorder) \<Rightarrow> 'v list \<Rightarrow> 'v list" where
  "rank_books sc it xs = fold (rank_inner sc it) [0..<length xs] xs"

text \<open>
  The slice \<open>xs[:k]\<close> for any integer \<open>k\<close>: a negative \<open>k\<close> counts from the end.
\<close>

definition slice_to :: "'v list \<Rightarrow> int \<Rightarrow> 'v list" where
  "slice_to xs k =
     (if 0 \<le> k then take (nat k) xs else take (length xs - nat (- k)) xs)"

text \<open>Steps 4 and 5: the truncation and the conversion to titles, both under the \<open>if\<close>.\<close>

definition truncate_books :: "('v \<Rightarrow> 'a) \<Rightarrow> 'v list \<Rightarrow> int \<Rightarrow> ('a, 'v) entry list" where
  "truncate_books it pos_books limit =
     (if int (length pos_books) \<ge> limit
      then map (\<lambda>x. Title (it x)) (slice_to pos_books (limit + 1))
      else map VertexObj pos_books)"

text \<open>
  \<open>self._vertices[book]\<close> is evaluated inside the loops and the comprehension only: in the
  loops when \<open>i > j\<close>, in the comprehension of step 3 once for each element. So a missing
  \<open>book\<close> raises \<open>KeyError\<close> exactly when \<open>pos_books\<close> is not empty.
\<close>

definition recommend_books :: "('a::linorder) graph \<Rightarrow> 'a \<Rightarrow> int \<Rightarrow> error + ('a, 'a vertex) entry list" where
  "recommend_books g book limit =
     (let pos_books = map snd (filter (\<lambda>(x, v). kind v = ''book'') g)
      in case map_of g book of
           None \<Rightarrow> (if pos_books = [] then Inr (truncate_books item [] limit) else Inl KeyError)
         | Some b \<Rightarrow>
             (let sc = (\<lambda>x. similarity_score x b);
                  ranked = rank_books sc item pos_books;
                  nonzero = filter (\<lambda>x. sc x \<noteq> 0) ranked
              in Inr (truncate_books item nonzero limit)))"

section \<open>recommendations.py: \<open>_WeightedVertex\<close> and \<open>WeightedGraph\<close>\<close>

definition WeightedVertex_init :: "'a \<Rightarrow> string \<Rightarrow> 'a wvertex" where
  "WeightedVertex_init it k = \<lparr>w_item = it, w_kind = k, w_neighbours = []\<rparr>"

definition w_degree :: "'a wvertex \<Rightarrow> nat" where
  "w_degree v = length (w_neighbours v)"

text \<open>\<open>set(self.neighbours)\<close>: the keys of the dictionary.\<close>

definition neighbour_set :: "'a wvertex \<Rightarrow> 'a set" where
  "neighbour_set v = set (map fst (w_neighbours v))"

definition similarity_score_unweighted :: "'a wvertex \<Rightarrow> 'a wvertex \<Rightarrow> rat" where
  "similarity_score_unweighted self other =
     (if w_degree self = 0 \<or> w_degree other = 0 then 0
      else of_nat (card (neighbour_set self \<inter> neighbour_set other)) /
           of_nat (card (neighbour_set self \<union> neighbour_set other)))"

text \<open>
  \<open>z.neighbours[v]\<close> for a vertex reference \<open>z\<close>: the fields of \<open>z\<close> are read through the
  graph, and the subscript raises \<open>KeyError\<close> (here \<open>None\<close>) when \<open>v\<close> is not a key.
\<close>

definition neighbour_weight :: "'a wgraph \<Rightarrow> 'a \<Rightarrow> 'a \<Rightarrow> rat option" where
  "neighbour_weight g z v =
     (case map_of g z of
        None \<Rightarrow> None
      | Some zv \<Rightarrow> map_of (w_neighbours zv) v)"

text \<open>
  The set comprehension of line 48 evaluates both subscripts for every \<open>z\<close> of the
  intersection, so it raises \<open>KeyError\<close> exactly when one of them is missing for some \<open>z\<close>.
\<close>

definition similarity_score_strict :: "'a wgraph \<Rightarrow> 'a wvertex \<Rightarrow> 'a wvertex \<Rightarrow> error + rat" where
  "similarity_score_strict g self other =
     (if w_degree self = 0 \<or> w_degree other = 0 then Inr 0
      else
        (let n = neighbour_set self; m = neighbour_set other; no = n \<inter> m
         in if \<forall>z \<in> no. neighbour_weight g z (w_item self) \<noteq> None
                        \<and> neighbour_weight g z (w_item other) \<noteq> None
            then Inr (of_nat (card (Set.filter
                        (\<lambda>z. neighbour_weight g z (w_item self) = neighbour_weight g z (w_item other)) no))
                      / of_nat (card (n \<union> m)))
            else Inl KeyError))"

definition WeightedGraph_init :: "'a wgraph" where
  "WeightedGraph_init = []"

definition w_add_vertex :: "'a wgraph \<Rightarrow> 'a \<Rightarrow> string \<Rightarrow> 'a wgraph" where
  "w_add_vertex g it k =
     (if it \<in> fst ` set g then g else g @ [(it, WeightedVertex_init it k)])"

text \<open>\<open>v.neighbours[u] = weight\<close> on the vertex stored under \<open>a\<close>.\<close>

definition neighbours_store :: "'a wgraph \<Rightarrow> 'a \<Rightarrow> 'a \<Rightarrow> rat \<Rightarrow> 'a wgraph" where
  "neighbours_store g a u weight =
     AList.map_entry a (\<lambda>v. v\<lparr>w_neighbours := AList.update u weight (w_neighbours v)\<rparr>) g"

definition w_add_edge :: "'a wgraph \<Rightarrow> 'a \<Rightarrow> 'a \<Rightarrow> rat \<Rightarrow> error + 'a wgraph" where
  "w_add_edge g item1 item2 weight =
     (if item1 \<in> fst ` set g \<and> item2 \<in> fst ` set g
      then Inr (neighbours_store (neighbours_store g item1 item2 weight) item2 item1 weight)
      else Inl ValueError)"

text \<open>
  \<open>adjacent\<close>, \<open>get_neighbours\<close> and \<open>get_all_vertices\<close> are inherited from \<open>Graph\<close>;
  iterating the dictionary \<open>neighbours\<close> iterates its keys.
\<close>

definition w_adjacent :: "'a wgraph \<Rightarrow> 'a \<Rightarrow> 'a \<Rightarrow> bool" where
  "w_adjacent g item1 item2 =
     (if item1 \<in> fst ` set g \<and> item2 \<in> fst ` set g
      then (case map_of g item1 of
              Some v1 \<Rightarrow> (\<exists>v2 \<in> neighbour_set v1. v2 = item2)
            | None \<Rightarrow> False)
      else False)"

definition w_get_neighbours :: "'a wgraph \<Rightarrow> 'a \<Rightarrow> error + 'a set" where
  "w_get_neighbours g it =
     (case map_of g it of
        Some v \<Rightarrow> Inr (neighbour_set v)
      | None \<Rightarrow> Inl ValueError)"

definition w_get_all_vertices :: "'a wgraph \<Rightarrow> string \<Rightarrow> 'a set" where
  "w_get_all_vertices g k =
     (if k \<noteq> [] then w_item ` Set.filter (\<lambda>v. w_kind v = k) (snd ` set g)
      else set (map fst g))"

definition get_weight :: "'a wgraph \<Rightarrow> 'a \<Rightarrow> 'a \<Rightarrow> error + rat" where
  "get_weight g item1 item2 =
     (case map_of g item1 of
        None \<Rightarrow> Inl KeyError
      | Some v1 \<Rightarrow>
          (case map_of g item2 of
             None \<Rightarrow> Inl KeyError
           | Some v2 \<Rightarrow>
               Inr (case map_of (w_neighbours v1) item2 of Some w \<Rightarrow> w | None \<Rightarrow> 0)))"

definition average_weight :: "'a wgraph \<Rightarrow> 'a \<Rightarrow> error + rat" where
  "average_weight g it =
     (case map_of g it of
        Some v \<Rightarrow>
          (if length (w_neighbours v) = 0 then Inl ZeroDivisionError
           else Inr (sum_list (map snd (w_neighbours v)) / of_nat (length (w_neighbours v))))
      | None \<Rightarrow> Inl ValueError)"

definition w_get_similarity_score :: "'a wgraph \<Rightarrow> 'a \<Rightarrow> 'a \<Rightarrow> string \<Rightarrow> error + rat" where
  "w_get_similarity_score g item1 item2 score_type =
     (if item1 \<notin> w_get_all_vertices g [] \<or> item2 \<notin> w_get_all_vertices g [] then Inl ValueError
      else (case (map_of g item1, map_of g item2) of
              (Some v1, Some v2) \<Rightarrow>
                (if score_type = ''unweighted'' then Inr (similarity_score_unweighted v1 v2)
                 else similarity_score_strict g v1 v2)
            | _ \<Rightarrow> Inl KeyError))"

text \<open>
  The score of a candidate \<open>x\<close> against the query vertex \<open>b\<close> in the branch of
  \<open>recommend_books\<close> that \<open>score_type\<close> selects.
\<close>

definition book_score :: "'a wgraph \<Rightarrow> string \<Rightarrow> 'a wvertex \<Rightarrow> 'a wvertex \<Rightarrow> error + rat" where
  "book_score g score_type b x =
     (if score_type = ''unweighted'' then Inr (similarity_score_unweighted x b)
      else similarity_score_strict g x b)"

text \<open>
  The two branches of \<open>WeightedGraph.recommend_books\<close> are the same loops over the two
  score functions. Step 3 computes the score of every element of \<open>pos_books\<close>, so the call
  raises \<open>KeyError\<close> when the query book is missing and \<open>pos_books\<close> is not empty, or when
  one of the scores raises it (in the loops or, at the latest, in step 3).
\<close>

definition w_recommend_books ::
    "('a::linorder) wgraph \<Rightarrow> 'a \<Rightarrow> int \<Rightarrow> string \<Rightarrow> error + ('a, 'a wvertex) entry list" where
  "w_recommend_books g book limit score_type =
     (let pos_books = map snd (filter (\<lambda>(x, v). w_kind v = ''book'') g)
      in case map_of g book of
           None \<Rightarrow> (if pos_books = [] then Inr (truncate_books w_item [] limit) else Inl KeyError)
         | Some b \<Rightarrow>
             (if \<exists>x \<in> set pos_books. isl (book_score g score_type b x) then Inl KeyError
              else
                (let sc = (\<lambda>x. projr (book_score g score_type b x));
                     ranked = rank_books sc w_item pos_books;
                     nonzero = filter (\<lambda>x. sc x \<noteq> 0) ranked
                 in Inr (truncate_books w_item nonzero limit))))"

section \<open>predictions.py: the review score predictors\<close>

text \<open>
  \<open>round\<close> with one argument: to the nearest integer, a tie going to the even one.
\<close>

definition py_round :: "rat \<Rightarrow> int" where
  "py_round x =
     (let f = \<lfloor>x\<rfloor>; d = x - of_int f
      in if d < 1 / 2 then f
         else if 1 / 2 < d then f + 1
         else if even f then f else f + 1)"

text \<open>A list comprehension whose element expression can raise: the first error wins.\<close>

fun collect :: "('x \<Rightarrow> error + 'y) \<Rightarrow> 'x list \<Rightarrow> error + 'y list" where
  "collect f [] = Inr []"
| "collect f (x # xs) =
     (case f x of
        Inl e \<Rightarrow> Inl e
      | Inr y \<Rightarrow> (case collect f xs of Inl e \<Rightarrow> Inl e | Inr ys \<Rightarrow> Inr (y # ys)))"

definition ReviewScorePredictor_predict_review_score :: "'a wgraph \<Rightarrow> 'a \<Rightarrow> 'a \<Rightarrow> error + rat" where
  "ReviewScorePredictor_predict_review_score g user book = Inl NotImplementedError"

definition FiveStarPredictor_predict_review_score :: "'a wgraph \<Rightarrow> 'a \<Rightarrow> 'a \<Rightarrow> error + rat" where
  "FiveStarPredictor_predict_review_score g user book =
     (if w_adjacent g user book then get_weight g user book else Inr 5)"

definition BookAverageScorePredictor_predict_review_score ::
    "'a wgraph \<Rightarrow> 'a \<Rightarrow> 'a \<Rightarrow> error + rat" where
  "BookAverageScorePredictor_predict_review_score g user book =
     (if w_adjacent g user book then get_weight g user book
      else (case average_weight g book of
              Inl e \<Rightarrow> Inl e
            | Inr a \<Rightarrow> Inr (of_int (py_round a))))"

text \<open>
  \<open>iter\<close> is the order in which Python iterates a set; \<open>score_type\<close> is the field
  \<open>_score_type\<close> of the predictor.
\<close>

definition SimilarUserPredictor_predict_review_score ::
    "('a set \<Rightarrow> 'a list) \<Rightarrow> string \<Rightarrow> 'a wgraph \<Rightarrow> 'a \<Rightarrow> 'a \<Rightarrow> error + rat" where
  "SimilarUserPredictor_predict_review_score iter score_type g user book =
     (if w_adjacent g user book then get_weight g user book
      else
        (case w_get_neighbours g book of
           Inl e \<Rightarrow> Inl e
         | Inr prev_revs \<Rightarrow>
             (case collect (\<lambda>x. case get_weight g x book of
                                   Inl e \<Rightarrow> Inl e
                                 | Inr w \<Rightarrow>
                                     (case w_get_similarity_score g x user score_type of
                                        Inl e \<Rightarrow> Inl e
                                      | Inr s \<Rightarrow> Inr (w * s)))
                           (iter prev_revs) of
                Inl e \<Rightarrow> Inl e
              | Inr products \<Rightarrow>
                  (case collect (\<lambda>x. w_get_similarity_score g x user score_type)
                                (iter prev_revs) of
                     Inl e \<Rightarrow> Inl e
                   | Inr scores \<Rightarrow>
                       (let numerator = sum_list products;
                            denominator = sum_list scores;
                            return_val = (if denominator > 0 then py_round (numerator / denominator)
                                          else 0)
                        in if return_val = 0
                           then (case average_weight g book of
                                   Inl e \<Rightarrow> Inl e
                                 | Inr a \<Rightarrow> Inr (of_int (py_round a)))
                           else Inr (of_int return_val))))))"

section \<open>part3.py: clustering\<close>

text \<open>
  A cluster is a Python set of items; \<open>clusters\<close> is a list of such set objects, and an
  object in that list is identified by its index. \<open>iter\<close> is again the order in which a
  set is iterated.
\<close>

definition cross_cluster_weight ::
    "('a set \<Rightarrow> 'a list) \<Rightarrow> 'a wgraph \<Rightarrow> 'a set \<Rightarrow> 'a set \<Rightarrow> error + rat" where
  "cross_cluster_weight iter g cluster1 cluster2 =
     (case collect (\<lambda>(x, y). get_weight g x y) (List.product (iter cluster1) (iter cluster2)) of
        Inl e \<Rightarrow> Inl e
      | Inr cluster_sum_list \<Rightarrow>
          (if card cluster1 * card cluster2 = 0 then Inl ZeroDivisionError
           else Inr (sum_list cluster_sum_list / of_nat (card cluster1 * card cluster2))))"

text \<open>A \<open>for\<close> loop over a list whose body updates the loop state and can raise.\<close>

fun for_loop :: "('x \<Rightarrow> 's \<Rightarrow> error + 's) \<Rightarrow> 'x list \<Rightarrow> 's \<Rightarrow> error + 's" where
  "for_loop body [] s = Inr s"
| "for_loop body (x # xs) s =
     (case body x s of
        Inl e \<Rightarrow> Inl e
      | Inr s' \<Rightarrow> for_loop body xs s')"

text \<open>
  \<open>create_book_graph\<close>. The first loop adds the books of the review graph; the body of
  the nested loops adds an edge for two different books whose similarity in the review
  graph exceeds the threshold, with that similarity as weight. Both calls of
  \<open>get_similarity_score\<close> and the call of \<open>add_edge\<close> can raise.
\<close>

definition add_book_vertices :: "('a set \<Rightarrow> 'a list) \<Rightarrow> 'a wgraph \<Rightarrow> 'a wgraph" where
  "add_book_vertices iter review_graph =
     fold (\<lambda>x new_wg. w_add_vertex new_wg x ''book'')
       (iter (w_get_all_vertices review_graph ''book'')) WeightedGraph_init"

definition book_edge_body ::
    "'a wgraph \<Rightarrow> rat \<Rightarrow> string \<Rightarrow> 'a \<Rightarrow> 'a \<Rightarrow> 'a wgraph \<Rightarrow> error + 'a wgraph" where
  "book_edge_body review_graph threshold score_type x y new_wg =
     (if x \<noteq> y
      then (case w_get_similarity_score review_graph x y score_type of
              Inl e \<Rightarrow> Inl e
            | Inr s \<Rightarrow>
                (if s > threshold
                 then (case w_get_similarity_score review_graph x y score_type of
                         Inl e \<Rightarrow> Inl e
                       | Inr weight \<Rightarrow> w_add_edge new_wg x y weight)
                 else Inr new_wg))
      else Inr new_wg)"

definition create_book_graph ::
    "('a set \<Rightarrow> 'a list) \<Rightarrow> 'a wgraph \<Rightarrow> rat \<Rightarrow> string \<Rightarrow> error + 'a wgraph" where
  "create_book_graph iter review_graph threshold score_type =
     (let new_wg = add_book_vertices iter review_graph
      in for_loop
           (\<lambda>x g. for_loop (book_edge_body review_graph threshold score_type x)
                    (iter (w_get_all_vertices g [])) g)
           (iter (w_get_all_vertices new_wg [])) new_wg)"

text \<open>
  The outer loop \<open>for _ in range(0, len(clusters) - num_clusters)\<close>: the range is computed
  once; \<open>t\<close> counts the iterations done so far, \<open>m\<close> those still to do.
\<close>

fun merge_loop :: "(nat \<Rightarrow> 'c \<Rightarrow> error + 'c) \<Rightarrow> nat \<Rightarrow> nat \<Rightarrow> 'c \<Rightarrow> error + 'c" where
  "merge_loop step t 0 clusters = Inr clusters"
| "merge_loop step t (Suc m) clusters =
     (case step t clusters of
        Inl e \<Rightarrow> Inl e
      | Inr clusters' \<Rightarrow> merge_loop step (Suc t) m clusters')"

text \<open>
  \<open>best_c2.update(c1)\<close> changes the set object at index \<open>i2\<close> in place;
  \<open>clusters.remove(c1)\<close> then deletes the first element equal to \<open>c1\<close>.
\<close>

definition merge_into :: "'a set list \<Rightarrow> nat \<Rightarrow> nat \<Rightarrow> 'a set list" where
  "merge_into clusters i1 i2 =
     remove1 (clusters ! i1) (clusters[i2 := clusters ! i2 \<union> clusters ! i1])"

text \<open>
  The scan of \<open>find_clusters_random\<close> for the chosen cluster at index \<open>i\<close>; the loop state
  is \<open>best\<close> and the index of \<open>best_c2\<close> (\<open>None\<close> as in the source).
\<close>

definition random_body ::
    "('a set \<Rightarrow> 'a list) \<Rightarrow> 'a wgraph \<Rightarrow> 'a set list \<Rightarrow> nat \<Rightarrow> nat \<Rightarrow> rat \<times> nat option
       \<Rightarrow> error + rat \<times> nat option" where
  "random_body iter g clusters i j st =
     (if i \<noteq> j
      then (case cross_cluster_weight iter g (clusters ! i) (clusters ! j) of
              Inl e \<Rightarrow> Inl e
            | Inr score \<Rightarrow> (if score > fst st then Inr (score, Some j) else Inr st))
      else Inr st)"

text \<open>
  One iteration of the outer loop of \<open>find_clusters_random\<close>; \<open>r\<close> is the random number
  that \<open>random.choice\<close> draws, reduced to an index of the list.
\<close>

definition random_merge ::
    "('a set \<Rightarrow> 'a list) \<Rightarrow> 'a wgraph \<Rightarrow> nat \<Rightarrow> 'a set list \<Rightarrow> error + 'a set list" where
  "random_merge iter g r clusters =
     (if clusters = [] then Inl IndexError
      else
        (let i = r mod length clusters
         in case for_loop (random_body iter g clusters i) [0..<length clusters] (- 1, None) of
              Inl e \<Rightarrow> Inl e
            | Inr (best, None) \<Rightarrow> Inl AttributeError
            | Inr (best, Some j) \<Rightarrow> Inr (merge_into clusters i j)))"

text \<open>\<open>[{book} for book in graph.get_all_vertices()]\<close>: each book in its own cluster.\<close>

definition singleton_clusters :: "('a set \<Rightarrow> 'a list) \<Rightarrow> 'a wgraph \<Rightarrow> 'a set list" where
  "singleton_clusters iter g = map (\<lambda>book. {book}) (iter (w_get_all_vertices g []))"

text \<open>\<open>rnd t\<close> is the random number drawn in iteration \<open>t\<close> of the outer loop.\<close>

definition find_clusters_random ::
    "(nat \<Rightarrow> nat) \<Rightarrow> ('a set \<Rightarrow> 'a list) \<Rightarrow> 'a wgraph \<Rightarrow> int \<Rightarrow> error + 'a set list" where
  "find_clusters_random rnd iter g num_clusters =
     (let clusters = singleton_clusters iter g
      in merge_loop (\<lambda>t. random_merge iter g (rnd t)) 0
           (nat (int (length clusters) - num_clusters)) clusters)"

text \<open>The index pairs that the two nested loops of \<open>find_clusters_greedy\<close> visit, in order.\<close>

definition index_pairs :: "nat \<Rightarrow> (nat \<times> nat) list" where
  "index_pairs n = concat (map (\<lambda>i1. map (Pair i1) [i1 + 1..<n]) [0..<n])"

definition greedy_body ::
    "('a set \<Rightarrow> 'a list) \<Rightarrow> 'a wgraph \<Rightarrow> 'a set list \<Rightarrow> nat \<times> nat \<Rightarrow> rat \<times> (nat \<times> nat) option
       \<Rightarrow> error + rat \<times> (nat \<times> nat) option" where
  "greedy_body iter g clusters p st =
     (case cross_cluster_weight iter g (clusters ! fst p) (clusters ! snd p) of
        Inl e \<Rightarrow> Inl e
      | Inr score \<Rightarrow> (if score > fst st then Inr (score, Some p) else Inr st))"

definition greedy_merge ::
    "('a set \<Rightarrow> 'a list) \<Rightarrow> 'a wgraph \<Rightarrow> 'a set list \<Rightarrow> error + 'a set list" where
  "greedy_merge iter g clusters =
     (case for_loop (greedy_body iter g clusters) (index_pairs (length clusters)) (- 1, None) of
        Inl e \<Rightarrow> Inl e
      | Inr (best, None) \<Rightarrow> Inl AttributeError
      | Inr (best, Some (i1, i2)) \<Rightarrow> Inr (merge_into clusters i1 i2))"

definition find_clusters_greedy ::
    "('a set \<Rightarrow> 'a list) \<Rightarrow> 'a wgraph \<Rightarrow> int \<Rightarrow> error + 'a set list" where
  "find_clusters_greedy iter g num_clusters =
     (let clusters = singleton_clusters iter g
      in merge_loop (\<lambda>t. greedy_merge iter g) 0
           (nat (int (length clusters) - num_clusters)) clusters)"

section \<open>Sequences of construction calls\<close>

text \<open>
  A graph is built by calls of \<open>add_vertex\<close> and \<open>add_edge\<close> on an empty graph. A call of
  \<open>add_edge\<close> that raises has not changed the graph: the check precedes both stores.
\<close>

datatype 'a graph_op = Add_Vertex 'a string | Add_Edge 'a 'a

fun exec_op :: "'a graph \<Rightarrow> 'a graph_op \<Rightarrow> 'a graph" where
  "exec_op g (Add_Vertex it k) = add_vertex g it k"
| "exec_op g (Add_Edge item1 item2) =
     (case add_edge g item1 item2 of Inl e \<Rightarrow> g | Inr g' \<Rightarrow> g')"

definition build :: "'a graph_op list \<Rightarrow> 'a graph" where
  "build ops = foldl exec_op Graph_init ops"

datatype 'a wgraph_op = W_Add_Vertex 'a string | W_Add_Edge 'a 'a rat

fun w_exec_op :: "'a wgraph \<Rightarrow> 'a wgraph_op \<Rightarrow> 'a wgraph" where
  "w_exec_op g (W_Add_Vertex it k) = w_add_vertex g it k"
| "w_exec_op g (W_Add_Edge item1 item2 weight) =
     (case w_add_edge g item1 item2 weight of Inl e \<Rightarrow> g | Inr g' \<Rightarrow> g')"

definition w_build :: "'a wgraph_op list \<Rightarrow> 'a wgraph" where
  "w_build ops = foldl w_exec_op WeightedGraph_init ops"

text \<open>A vertex that holds itself as a neighbour.\<close>

definition has_self_loop :: "'a graph \<Rightarrow> bool" where
  "has_self_loop g = (\<exists>(k, v) \<in> set g. k \<in> neighbours v)"

definition w_has_self_loop :: "'a wgraph \<Rightarrow> bool" where
  "w_has_self_loop g = (\<exists>(k, v) \<in> set g. k \<in> neighbour_set v)"

text \<open>The call sequences in which no \<open>add_edge\<close> names the same item twice.\<close>

fun loop_free_op :: "'a graph_op \<Rightarrow> bool" where
  "loop_free_op (Add_Vertex it k) = True"
| "loop_free_op (Add_Edge item1 item2) = (item1 \<noteq> item2)"

fun w_loop_free_op :: "'a wgraph_op \<Rightarrow> bool" where
  "w_loop_free_op (W_Add_Vertex it k) = True"
| "w_loop_free_op (W_Add_Edge item1 item2 weight) = (item1 \<noteq> item2)"

section \<open>Notions used in the statements and proofs\<close>

text \<open>
  The order that the ranking loops establish: \<open>x\<close> may stand before \<open>y\<close> when its score
  is larger, or the scores are equal and its item is not smaller.
\<close>

definition precedes :: "('v \<Rightarrow> rat) \<Rightarrow> ('v \<Rightarrow> 'a::linorder) \<Rightarrow> 'v \<Rightarrow> 'v \<Rightarrow> bool" where
  "precedes sc it x y = (sc x > sc y \<or> (sc x = sc y \<and> it x \<ge> it y))"

definition sorted_upto :: "('v \<Rightarrow> 'v \<Rightarrow> bool) \<Rightarrow> nat \<Rightarrow> 'v list \<Rightarrow> bool" where
  "sorted_upto P m xs = (\<forall>a b. a < b \<and> b < m \<longrightarrow> P (xs ! a) (xs ! b))"

text \<open>
  What holds of every graph that the construction calls build: the keys of \<open>_vertices\<close>
  are distinct, every vertex is stored under its own item and, in a weighted graph,
  every entry of a \<open>neighbours\<close> dictionary is mirrored with the same weight.
\<close>

definition consistent :: "'a graph \<Rightarrow> bool" where
  "consistent g =
     (distinct (map fst g) \<and> (\<forall>k v. map_of g k = Some v \<longrightarrow> item v = k))"

definition w_consistent :: "'a wgraph \<Rightarrow> bool" where
  "w_consistent g =
     (distinct (map fst g)
      \<and> (\<forall>k v. map_of g k = Some v \<longrightarrow>
             w_item v = k
           \<and> (\<forall>u w. map_of (w_neighbours v) u = Some w \<longrightarrow> neighbour_weight g u k = Some w)))"

text \<open>The item key behind an element of a returned list.\<close>

fun entry_item :: "('v \<Rightarrow> 'a) \<Rightarrow> ('a, 'v) entry \<Rightarrow> 'a" where
  "entry_item it (Title k) = k"
| "entry_item it (VertexObj v) = it v"

text \<open>
  A list of item keys ranked by a score, larger scores first, with \<open>tie x y\<close> saying
  that \<open>x\<close> may stand before \<open>y\<close> when their scores are equal. The ascending tie order
  is \<open>(\<lambda>x y. x \<le> y)\<close>, the descending one \<open>(\<lambda>x y. y \<le> x)\<close>.
\<close>

definition ordered_by :: "('a \<Rightarrow> 'a \<Rightarrow> bool) \<Rightarrow> ('a \<Rightarrow> error + rat) \<Rightarrow> 'a list \<Rightarrow> bool" where
  "ordered_by tie score ks =
     sorted_wrt (\<lambda>x y. case (score x, score y) of
                          (Inr s, Inr t) \<Rightarrow> t < s \<or> (s = t \<and> tie x y)
                        | _ \<Rightarrow> False) ks"

text \<open>Every key of the list is a book of the graph with a non-zero score.\<close>

definition nonzero_books :: "('a \<Rightarrow> string option) \<Rightarrow> ('a \<Rightarrow> error + rat) \<Rightarrow> 'a list \<Rightarrow> bool" where
  "nonzero_books kind_of score ks =
     list_all (\<lambda>k. kind_of k = Some ''book''
                  \<and> (case score k of Inr s \<Rightarrow> s \<noteq> 0 | Inl e \<Rightarrow> False)) ks"

text \<open>
  \<open>iter\<close> is an iteration order of sets: it lists every element of a finite set once.
\<close>

definition enumerates :: "('a set \<Rightarrow> 'a list) \<Rightarrow> bool" where
  "enumerates iter = (\<forall>c. finite c \<longrightarrow> set (iter c) = c \<and> distinct (iter c))"

text \<open>Every weight stored in the graph is greater than \<open>lo\<close>.\<close>

definition weights_exceed :: "'a wgraph \<Rightarrow> rat \<Rightarrow> bool" where
  "weights_exceed g lo = list_all (\<lambda>(k, v). list_all (\<lambda>(u, w). lo < w) (w_neighbours v)) g"

text \<open>
  A book-only weighted graph, as the clustering functions receive it: every vertex is
  a book, and every stored weight is a similarity score and so is not negative
  (\<open>create_book_graph\<close> stores values of \<open>get_similarity_score\<close> only).
\<close>

definition book_only :: "'a wgraph \<Rightarrow> bool" where
  "book_only g =
     list_all (\<lambda>(k, v). w_kind v = ''book'' \<and> list_all (\<lambda>(u, w). 0 \<le> w) (w_neighbours v)) g"

text \<open>The clusters are finite, non-empty sets of items of the graph.\<close>

definition clusters_of :: "'a wgraph \<Rightarrow> 'a set list \<Rightarrow> bool" where
  "clusters_of g clusters = (\<forall>c \<in> set clusters. finite c \<and> c \<noteq> {} \<and> c \<subseteq> fst ` set g)"

text \<open>
  A list of clusters that is a partition of the set \<open>V\<close>: no cluster occurs twice, none
  is empty, two different clusters share no item, and together they cover \<open>V\<close>.
\<close>

definition partition_of :: "'a set \<Rightarrow> 'a set list \<Rightarrow> bool" where
  "partition_of V clusters =
     (distinct clusters \<and> \<Union> (set clusters) = V \<and> {} \<notin> set clusters
      \<and> (\<forall>c \<in> set clusters. \<forall>d \<in> set clusters. c \<noteq> d \<longrightarrow> c \<inter> d = {}))"

text \<open>
  One merge: \<open>clusters'\<close> is \<open>clusters\<close> with two different clusters \<open>a\<close> and \<open>b\<close>
  taken out and their union put in.
\<close>

definition merged :: "'a set list \<Rightarrow> 'a set list \<Rightarrow> bool" where
  "merged clusters clusters' =
     (\<exists>a b. a \<in> set clusters \<and> b \<in> set clusters \<and> a \<noteq> b
        \<and> mset clusters' = add_mset (a \<union> b) (mset clusters - {#a, b#}))"

section \<open>Example graphs\<close>

text \<open>
  A weighted review graph with two users (10 and 11) and three books (1, 2 and 3), the
  last of which nobody has reviewed.
\<close>

definition review_calls :: "nat wgraph_op list" where
  "review_calls = [W_Add_Vertex 10 ''user'', W_Add_Vertex 11 ''user'',
      W_Add_Vertex 1 ''book'', W_Add_Vertex 2 ''book'', W_Add_Vertex 3 ''book'',
      W_Add_Edge 10 1 5, W_Add_Edge 10 2 3, W_Add_Edge 11 1 4, W_Add_Edge 11 2 3]"

definition review_graph :: "nat wgraph" where
  "review_graph = w_build review_calls"

text \<open>The same network without weights.\<close>

definition small_calls :: "nat graph_op list" where
  "small_calls = [Add_Vertex 10 ''user'', Add_Vertex 11 ''user'',
      Add_Vertex 1 ''book'', Add_Vertex 2 ''book'', Add_Vertex 3 ''book'',
      Add_Edge 10 1, Add_Edge 10 2, Add_Edge 11 1, Add_Edge 11 2]"

definition small_graph :: "nat graph" where
  "small_graph = build small_calls"

text \<open>
  Four books and two users: user 10 has reviewed the books 1, 2 and 4, user 11 the
  book 3. The weighted variant gives every review the score 5.
\<close>

definition shelf_calls :: "nat graph_op list" where
  "shelf_calls = [Add_Vertex 10 ''user'', Add_Vertex 11 ''user'',
      Add_Vertex 1 ''book'', Add_Vertex 2 ''book'', Add_Vertex 3 ''book'', Add_Vertex 4 ''book'',
      Add_Edge 10 1, Add_Edge 10 2, Add_Edge 10 4, Add_Edge 11 3]"

definition shelf_graph :: "nat graph" where
  "shelf_graph = build shelf_calls"

definition w_shelf_calls :: "nat wgraph_op list" where
  "w_shelf_calls = [W_Add_Vertex 10 ''user'', W_Add_Vertex 11 ''user'',
      W_Add_Vertex 1 ''book'', W_Add_Vertex 2 ''book'', W_Add_Vertex 3 ''book'',
      W_Add_Vertex 4 ''book'',
      W_Add_Edge 10 1 5, W_Add_Edge 10 2 5, W_Add_Edge 10 4 5, W_Add_Edge 11 3 5]"

definition w_shelf_graph :: "nat wgraph" where
  "w_shelf_graph = w_build w_shelf_calls"

text \<open>
  The book graph that \<open>create_book_graph\<close> derives from \<open>w_shelf_graph\<close> with the
  threshold \<open>1/20\<close>, the unweighted score and sets iterated in ascending order, written
  as the calls that it makes: the books 1, 2 and 4 are pairwise similar with score 1.
\<close>

definition shelf_book_calls :: "nat wgraph_op list" where
  "shelf_book_calls = [W_Add_Vertex 1 ''book'', W_Add_Vertex 2 ''book'', W_Add_Vertex 3 ''book'',
      W_Add_Vertex 4 ''book'',
      W_Add_Edge 1 2 1, W_Add_Edge 1 4 1, W_Add_Edge 2 1 1, W_Add_Edge 2 4 1,
      W_Add_Edge 4 1 1, W_Add_Edge 4 2 1]"

definition shelf_book_graph :: "nat wgraph" where
  "shelf_book_graph = w_build shelf_book_calls"

section \<open>Basic facts\<close>

lemma map_of_in_keys: "k \<in> fst ` set al \<Longrightarrow> \<exists>v. map_of al k = Some v"
  by (metis domD dom_map_of_conv_image_fst)

lemma review_graph_eq: "review_graph =
  [(10, \<lparr>w_item = 10, w_kind = ''user'', w_neighbours = [(1, 5), (2, 3)]\<rparr>),
   (11, \<lparr>w_item = 11, w_kind = ''user'', w_neighbours = [(1, 4), (2, 3)]\<rparr>),
   (1, \<lparr>w_item = 1, w_kind = ''book'', w_neighbours = [(10, 5), (11, 4)]\<rparr>),
   (2, \<lparr>w_item = 2, w_kind = ''book'', w_neighbours = [(10, 3), (11, 3)]\<rparr>),
   (3, \<lparr>w_item = 3, w_kind = ''book'', w_neighbours = []\<rparr>)]"
  by (simp add: review_graph_def review_calls_def w_build_def w_add_edge_def w_add_vertex_def
      WeightedGraph_init_def WeightedVertex_init_def neighbours_store_def)

lemma small_graph_eq: "small_graph =
  [(10, \<lparr>item = 10, kind = ''user'', neighbours = {2, 1}\<rparr>),
   (11, \<lparr>item = 11, kind = ''user'', neighbours = {2, 1}\<rparr>),
   (1, \<lparr>item = 1, kind = ''book'', neighbours = {11, 10}\<rparr>),
   (2, \<lparr>item = 2, kind = ''book'', neighbours = {11, 10}\<rparr>),
   (3, \<lparr>item = 3, kind = ''book'', neighbours = {}\<rparr>)]"
  by (simp add: small_graph_def small_calls_def build_def add_edge_def add_vertex_def
      Graph_init_def Vertex_init_def neighbours_add_def)

lemma shelf_graph_eq: "shelf_graph =
  [(10, \<lparr>item = 10, kind = ''user'', neighbours = {4, 2, 1}\<rparr>),
   (11, \<lparr>item = 11, kind = ''user'', neighbours = {3}\<rparr>),
   (1, \<lparr>item = 1, kind = ''book'', neighbours = {10}\<rparr>),
   (2, \<lparr>item = 2, kind = ''book'', neighbours = {10}\<rparr>),
   (3, \<lparr>item = 3, kind = ''book'', neighbours = {11}\<rparr>),
   (4, \<lparr>item = 4, kind = ''book'', neighbours = {10}\<rparr>)]"
  by (simp add: shelf_graph_def shelf_calls_def build_def add_edge_def add_vertex_def
      Graph_init_def Vertex_init_def neighbours_add_def)

lemma w_shelf_graph_eq: "w_shelf_graph =
  [(10, \<lparr>w_item = 10, w_kind = ''user'', w_neighbours = [(1, 5), (2, 5), (4, 5)]\<rparr>),
   (11, \<lparr>w_item = 11, w_kind = ''user'', w_neighbours = [(3, 5)]\<rparr>),
   (1, \<lparr>w_item = 1, w_kind = ''book'', w_neighbours = [(10, 5)]\<rparr>),
   (2, \<lparr>w_item = 2, w_kind = ''book'', w_neighbours = [(10, 5)]\<rparr>),
   (3, \<lparr>w_item = 3, w_kind = ''book'', w_neighbours = [(11, 5)]\<rparr>),
   (4, \<lparr>w_item = 4, w_kind = ''book'', w_neighbours = [(10, 5)]\<rparr>)]"
  by (simp add: w_shelf_graph_def w_shelf_calls_def w_build_def w_add_edge_def w_add_vertex_def
      WeightedGraph_init_def WeightedVertex_init_def neighbours_store_def)

section \<open>The predictors on an existing edge, on absent items and on an unreviewed book\<close>

lemma w_adjacent_stored:
  assumes "w_adjacent g user book"
  shows "\<exists>v1 v2 w. map_of g user = Some v1 \<and> map_of g book = Some v2
           \<and> map_of (w_neighbours v1) book = Some w"
proof -
  from assms have u: "user \<in> fst ` set g" and b: "book \<in> fst ` set g"
    by (auto simp: w_adjacent_def split: if_splits)
  from u obtain v1 where v1: "map_of g user = Some v1" using map_of_in_keys by fastforce
  from b obtain v2 where v2: "map_of g book = Some v2" using map_of_in_keys by fastforce
  from assms u b v1 have "book \<in> fst ` set (w_neighbours v1)"
    by (simp add: w_adjacent_def neighbour_set_def)
  then obtain w where "map_of (w_neighbours v1) book = Some w"
    using map_of_in_keys by fastforce
  with v1 v2 show ?thesis by blast
qed

text \<open>
  Claim C7. When \<open>adjacent(user, book)\<close> holds, the dictionary \<open>neighbours\<close> of the user's
  vertex has an entry for the book, and each of the three predictors returns the weight
  stored in that entry, whatever the score type and the iteration order of sets.
\<close>

theorem existing_edge_returns_stored_weight:
  assumes "w_adjacent g user book"
  shows "\<exists>v1 w. map_of g user = Some v1 \<and> map_of (w_neighbours v1) book = Some w
     \<and> FiveStarPredictor_predict_review_score g user book = Inr w
     \<and> BookAverageScorePredictor_predict_review_score g user book = Inr w
     \<and> SimilarUserPredictor_predict_review_score iter score_type g user book = Inr w"
proof -
  from w_adjacent_stored[OF assms] obtain v1 v2 w where
    s: "map_of g user = Some v1" "map_of g book = Some v2" "map_of (w_neighbours v1) book = Some w"
    by blast
  then have gw: "get_weight g user book = Inr w" by (simp add: get_weight_def)
  from assms gw have "FiveStarPredictor_predict_review_score g user book = Inr w"
     "BookAverageScorePredictor_predict_review_score g user book = Inr w"
     "SimilarUserPredictor_predict_review_score iter score_type g user book = Inr w"
    by (simp_all add: FiveStarPredictor_predict_review_score_def
        BookAverageScorePredictor_predict_review_score_def
        SimilarUserPredictor_predict_review_score_def)
  with s show ?thesis by blast
qed

theorem existing_edge_returns_stored_weight_witness:
  "w_adjacent review_graph 10 2
   \<and> FiveStarPredictor_predict_review_score review_graph 10 2 = Inr 3
   \<and> BookAverageScorePredictor_predict_review_score review_graph 10 2 = Inr 3
   \<and> SimilarUserPredictor_predict_review_score sorted_list_of_set ''strict'' review_graph 10 2
       = Inr 3"
proof -
  have a: "w_adjacent review_graph 10 2"
    by (simp add: review_graph_eq w_adjacent_def neighbour_set_def)
  from existing_edge_returns_stored_weight[OF a, of sorted_list_of_set "''strict''"]
  show ?thesis
    using a by (auto simp: review_graph_eq)
qed

text \<open>
  Claim C10. When the user or the book is not a key of \<open>_vertices\<close>, \<open>adjacent\<close> is
  false and \<open>FiveStarPredictor.predict_review_score\<close> returns 5; no error is raised.
\<close>

theorem five_star_absent_item:
  assumes "user \<notin> fst ` set g \<or> book \<notin> fst ` set g"
  shows "FiveStarPredictor_predict_review_score g user book = Inr 5"
  using assms by (auto simp: FiveStarPredictor_predict_review_score_def w_adjacent_def)

theorem five_star_absent_item_witness:
  "7 \<notin> fst ` set review_graph \<and> 1 \<in> fst ` set review_graph
   \<and> FiveStarPredictor_predict_review_score review_graph 7 1 = Inr 5"
proof -
  have a: "7 \<notin> fst ` set review_graph" and b: "1 \<in> fst ` set review_graph"
    by (simp_all add: review_graph_eq)
  from a have "7 \<notin> fst ` set review_graph \<or> 1 \<notin> fst ` set review_graph" by simp
  from five_star_absent_item[OF this] a b show ?thesis by simp
qed

text \<open>
  Claim C4, as the code has it. With user and book present, no edge between them and a
  book vertex of degree 0, \<open>BookAverageScorePredictor.predict_review_score\<close> fails in
  \<open>average_weight\<close> with the \<open>ZeroDivisionError\<close> of \<open>sum(...) / len(...)\<close>; \<open>ValueError\<close>
  is raised for a missing book only.
\<close>

theorem book_average_unreviewed_book:
  assumes "map_of g user = Some uv" and "map_of g book = Some bv"
    and "\<not> w_adjacent g user book" and "w_degree bv = 0"
  shows "BookAverageScorePredictor_predict_review_score g user book = Inl ZeroDivisionError"
  using assms
  by (simp add: BookAverageScorePredictor_predict_review_score_def average_weight_def w_degree_def)

theorem book_average_unreviewed_book_witness:
  "map_of review_graph 11 = Some \<lparr>w_item = 11, w_kind = ''user'', w_neighbours = [(1, 4), (2, 3)]\<rparr>
   \<and> map_of review_graph 3 = Some \<lparr>w_item = 3, w_kind = ''book'', w_neighbours = []\<rparr>
   \<and> \<not> w_adjacent review_graph 11 3
   \<and> w_degree \<lparr>w_item = 3::nat, w_kind = ''book'', w_neighbours = []\<rparr> = 0
   \<and> BookAverageScorePredictor_predict_review_score review_graph 11 3 = Inl ZeroDivisionError"
proof -
  have a: "map_of review_graph 11 = Some \<lparr>w_item = 11, w_kind = ''user'', w_neighbours = [(1, 4), (2, 3)]\<rparr>"
    and b: "map_of review_graph 3 = Some \<lparr>w_item = 3, w_kind = ''book'', w_neighbours = []\<rparr>"
    and c: "\<not> w_adjacent review_graph 11 3"
    and d: "w_degree \<lparr>w_item = 3::nat, w_kind = ''book'', w_neighbours = []\<rparr> = 0"
    by (simp_all add: review_graph_eq w_adjacent_def neighbour_set_def w_degree_def)
  from book_average_unreviewed_book[OF a b c d] a b c d show ?thesis by simp
qed

text \<open>
  The claim as stated fails on \<open>review_graph\<close>: user 11 and book 3 are present, not
  adjacent, book 3 has no neighbours, and the error is not \<open>ValueError\<close>.
\<close>

theorem book_average_unreviewed_book_counterexample:
  "map_of review_graph 11 \<noteq> None \<and> map_of review_graph 3 \<noteq> None
   \<and> \<not> w_adjacent review_graph 11 3
   \<and> w_get_neighbours review_graph 3 = Inr {}
   \<and> BookAverageScorePredictor_predict_review_score review_graph 11 3 \<noteq> Inl ValueError"
  by (simp add: review_graph_eq w_adjacent_def neighbour_set_def w_get_neighbours_def
      BookAverageScorePredictor_predict_review_score_def average_weight_def)

section \<open>Symmetry of the similarity scores\<close>

lemma similarity_score_commute: "similarity_score v u = similarity_score u v"
  by (simp add: similarity_score_def Int_commute Un_commute disj_commute)

lemma similarity_score_unweighted_commute:
  "similarity_score_unweighted v u = similarity_score_unweighted u v"
  by (simp add: similarity_score_unweighted_def Int_commute Un_commute disj_commute)

lemma similarity_score_strict_commute:
  "similarity_score_strict g v u = similarity_score_strict g u v"
proof -
  have f: "Set.filter (\<lambda>z. neighbour_weight g z (w_item v) = neighbour_weight g z (w_item u)) A
         = Set.filter (\<lambda>z. neighbour_weight g z (w_item u) = neighbour_weight g z (w_item v)) A" for A
    by (rule arg_cong[where f = "\<lambda>P. Set.filter P A"]) (auto simp: fun_eq_iff)
  have c: "(\<forall>z\<in>A. neighbour_weight g z (w_item v) \<noteq> None \<and> neighbour_weight g z (w_item u) \<noteq> None)
         = (\<forall>z\<in>A. neighbour_weight g z (w_item u) \<noteq> None \<and> neighbour_weight g z (w_item v) \<noteq> None)" for A
    by blast
  show ?thesis
    unfolding similarity_score_strict_def Let_def
    by (simp only: f c Int_commute[of "neighbour_set v"] Un_commute[of "neighbour_set v"]
          disj_commute[of "w_degree v = 0"])
qed

text \<open>
  Claim C9. The similarity of two items is the same in both argument orders: for
  \<open>Graph.get_similarity_score\<close> and for \<open>WeightedGraph.get_similarity_score\<close> with the
  score types \<open>unweighted\<close> and \<open>strict\<close>. This holds for present vertices, where both
  calls return the same score, and for absent ones, where both raise \<open>ValueError\<close>.
\<close>

theorem similarity_symmetric:
  "get_similarity_score g a b = get_similarity_score g b a
   \<and> w_get_similarity_score wg a b ''unweighted'' = w_get_similarity_score wg b a ''unweighted''
   \<and> w_get_similarity_score wg a b ''strict'' = w_get_similarity_score wg b a ''strict''"
proof -
  have 1: "get_similarity_score g a b = get_similarity_score g b a"
    by (auto simp: get_similarity_score_def similarity_score_commute split: option.splits)
  have 2: "w_get_similarity_score wg a b st = w_get_similarity_score wg b a st" for st
    by (auto simp: w_get_similarity_score_def similarity_score_unweighted_commute
        similarity_score_strict_commute split: option.splits)
  from 1 2 show ?thesis by blast
qed

theorem similarity_symmetric_witness:
  "get_similarity_score small_graph 10 11 = Inr 1
   \<and> get_similarity_score small_graph 11 10 = Inr 1
   \<and> w_get_similarity_score review_graph 10 11 ''unweighted'' = Inr 1
   \<and> w_get_similarity_score review_graph 11 10 ''unweighted'' = Inr 1
   \<and> w_get_similarity_score review_graph 10 11 ''strict'' = Inr (1 / 2)
   \<and> w_get_similarity_score review_graph 11 10 ''strict'' = Inr (1 / 2)"
proof -
  have a: "get_similarity_score small_graph 10 11 = Inr 1"
    by (simp add: small_graph_eq get_similarity_score_def get_all_vertices_def
        similarity_score_def degree_def)
  have b: "w_get_similarity_score review_graph 10 11 ''unweighted'' = Inr 1"
    by (simp add: review_graph_eq w_get_similarity_score_def w_get_all_vertices_def
        similarity_score_unweighted_def w_degree_def neighbour_set_def)
  have c: "w_get_similarity_score review_graph 10 11 ''strict'' = Inr (1 / 2)"
    by code_simp
  from similarity_symmetric[of small_graph 10 11 review_graph] a b c
  show ?thesis by metis
qed


section \<open>Self-loops\<close>

lemma set_map_entry:
  "(k, v) \<in> set (AList.map_entry a f al) \<Longrightarrow>
     (k, v) \<in> set al \<or> (k = a \<and> (\<exists>v0. (a, v0) \<in> set al \<and> v = f v0))"
  by (induction al) (auto split: if_splits)

lemma neighbours_add_no_loop:
  assumes "\<not> has_self_loop g" and "a \<noteq> u"
  shows "\<not> has_self_loop (neighbours_add g a u)"
proof
  assume "has_self_loop (neighbours_add g a u)"
  then obtain k v where kv: "(k, v) \<in> set (neighbours_add g a u)" "k \<in> neighbours v"
    by (auto simp: has_self_loop_def)
  from set_map_entry[OF kv(1)[unfolded neighbours_add_def]] kv(2) assms
  show False by (auto simp: has_self_loop_def)
qed

lemma exec_op_no_loop:
  assumes "\<not> has_self_loop g" and "loop_free_op op"
  shows "\<not> has_self_loop (exec_op g op)"
proof (cases op)
  case (Add_Vertex it k)
  with assms show ?thesis
    by (auto simp: has_self_loop_def add_vertex_def Vertex_init_def)
next
  case (Add_Edge item1 item2)
  with assms have ne: "item1 \<noteq> item2" by simp
  from assms(1) ne have "\<not> has_self_loop (neighbours_add g item1 item2)"
    by (rule neighbours_add_no_loop)
  then have "\<not> has_self_loop (neighbours_add (neighbours_add g item1 item2) item2 item1)"
    using ne by (rule neighbours_add_no_loop[OF _ not_sym])
  with Add_Edge assms(1) show ?thesis by (simp add: add_edge_def)
qed

lemma build_no_loop: "list_all loop_free_op ops \<Longrightarrow> \<not> has_self_loop (build ops)"
proof (induction ops rule: rev_induct)
  case Nil
  show ?case by (simp add: build_def Graph_init_def has_self_loop_def)
next
  case (snoc op ops)
  then have "\<not> has_self_loop (build ops)" and "loop_free_op op" by simp_all
  then have "\<not> has_self_loop (exec_op (build ops) op)" by (rule exec_op_no_loop)
  then show ?case by (simp add: build_def)
qed

lemma neighbour_set_update:
  "neighbour_set (v\<lparr>w_neighbours := AList.update u w (w_neighbours v)\<rparr>) = insert u (neighbour_set v)"
  by (simp add: neighbour_set_def dom_update)

lemma neighbours_store_no_loop:
  assumes "\<not> w_has_self_loop g" and "a \<noteq> u"
  shows "\<not> w_has_self_loop (neighbours_store g a u w)"
proof
  assume "w_has_self_loop (neighbours_store g a u w)"
  then obtain k v where kv: "(k, v) \<in> set (neighbours_store g a u w)" "k \<in> neighbour_set v"
    by (auto simp: w_has_self_loop_def)
  from set_map_entry[OF kv(1)[unfolded neighbours_store_def]] kv(2) assms
  show False by (auto simp: w_has_self_loop_def neighbour_set_update)
qed

lemma w_exec_op_no_loop:
  assumes "\<not> w_has_self_loop g" and "w_loop_free_op op"
  shows "\<not> w_has_self_loop (w_exec_op g op)"
proof (cases op)
  case (W_Add_Vertex it k)
  with assms show ?thesis
    by (auto simp: w_has_self_loop_def w_add_vertex_def WeightedVertex_init_def neighbour_set_def)
next
  case (W_Add_Edge item1 item2 w)
  with assms have ne: "item1 \<noteq> item2" by simp
  from assms(1) ne have "\<not> w_has_self_loop (neighbours_store g item1 item2 w)"
    by (rule neighbours_store_no_loop)
  then have "\<not> w_has_self_loop (neighbours_store (neighbours_store g item1 item2 w) item2 item1 w)"
    using ne by (rule neighbours_store_no_loop[OF _ not_sym])
  with W_Add_Edge assms(1) show ?thesis by (simp add: w_add_edge_def)
qed

lemma w_build_no_loop: "list_all w_loop_free_op ops \<Longrightarrow> \<not> w_has_self_loop (w_build ops)"
proof (induction ops rule: rev_induct)
  case Nil
  show ?case by (simp add: w_build_def WeightedGraph_init_def w_has_self_loop_def)
next
  case (snoc op ops)
  then have "\<not> w_has_self_loop (w_build ops)" and "w_loop_free_op op" by simp_all
  then have "\<not> w_has_self_loop (w_exec_op (w_build ops) op)" by (rule w_exec_op_no_loop)
  then show ?case by (simp add: w_build_def)
qed

text \<open>
  Claim C3, as the code has it. \<open>add_edge\<close> has no check that its two items differ (in
  \<open>Graph\<close> and in \<open>WeightedGraph\<close> alike). After any sequence of \<open>add_vertex\<close> and
  \<open>add_edge\<close> calls in which no \<open>add_edge\<close> names the same item twice, no vertex holds
  itself as a neighbour.
\<close>

theorem no_self_loop_without_reflexive_edge:
  assumes "list_all loop_free_op ops" and "list_all w_loop_free_op wops"
  shows "\<not> has_self_loop (build ops) \<and> \<not> w_has_self_loop (w_build wops)"
  using assms by (simp add: build_no_loop w_build_no_loop)

theorem no_self_loop_without_reflexive_edge_witness:
  "list_all loop_free_op [Add_Vertex (10::nat) ''user'', Add_Vertex 1 ''book'', Add_Edge 10 1, Add_Edge 1 10]
   \<and> list_all w_loop_free_op [W_Add_Vertex (10::nat) ''user'', W_Add_Vertex 1 ''book'', W_Add_Edge 10 1 5]
   \<and> \<not> has_self_loop (build [Add_Vertex (10::nat) ''user'', Add_Vertex 1 ''book'', Add_Edge 10 1, Add_Edge 1 10])
   \<and> \<not> w_has_self_loop (w_build [W_Add_Vertex (10::nat) ''user'', W_Add_Vertex 1 ''book'', W_Add_Edge 10 1 5])"
proof -
  have a: "list_all loop_free_op [Add_Vertex (10::nat) ''user'', Add_Vertex 1 ''book'', Add_Edge 10 1, Add_Edge 1 10]"
    and b: "list_all w_loop_free_op [W_Add_Vertex (10::nat) ''user'', W_Add_Vertex 1 ''book'', W_Add_Edge 10 1 5]"
    by simp_all
  from no_self_loop_without_reflexive_edge[OF a b] a b show ?thesis by blast
qed

text \<open>
  The claim as stated fails: \<open>add_edge(x, x)\<close> on a present item \<open>x\<close> makes the vertex
  its own neighbour, in both graph classes.
\<close>

theorem self_loop_counterexample:
  "has_self_loop (build [Add_Vertex (1::nat) ''book'', Add_Edge 1 1])
   \<and> w_has_self_loop (w_build [W_Add_Vertex (1::nat) ''book'', W_Add_Edge 1 1 5])"
  by (simp add: has_self_loop_def w_has_self_loop_def build_def w_build_def add_edge_def
      w_add_edge_def add_vertex_def w_add_vertex_def Graph_init_def WeightedGraph_init_def
      Vertex_init_def WeightedVertex_init_def neighbours_add_def neighbours_store_def
      neighbour_set_def)

section \<open>Graphs built by the construction calls are consistent\<close>

lemma map_of_neighbours_store:
  "map_of (neighbours_store g a u w) k =
     (if k = a then map_option (\<lambda>v. v\<lparr>w_neighbours := AList.update u w (w_neighbours v)\<rparr>) (map_of g a)
      else map_of g k)"
  by (simp add: neighbours_store_def map_of_map_entry split: option.splits)

lemma neighbour_weight_store:
  "neighbour_weight (neighbours_store g a u w) z v =
     (if z = a \<and> v = u \<and> map_of g a \<noteq> None then Some w else neighbour_weight g z v)"
  by (auto simp: neighbour_weight_def map_of_neighbours_store update_conv' split: option.splits)

lemma distinct_neighbours_store:
  "distinct (map fst g) \<Longrightarrow> distinct (map fst (neighbours_store g a u w))"
  by (simp add: neighbours_store_def distinct_map_entry)

lemma w_consistent_add_vertex:
  assumes "w_consistent g"
  shows "w_consistent (w_add_vertex g it k)"
proof (cases "it \<in> fst ` set g")
  case True
  with assms show ?thesis by (simp add: w_add_vertex_def)
next
  case False
  then have none: "map_of g it = None" by (simp add: map_of_eq_None_iff)
  let ?g = "g @ [(it, WeightedVertex_init it k)]"
  have m: "map_of ?g x = (if x = it then Some (WeightedVertex_init it k) else map_of g x)" for x
    using none by (auto simp: map_add_def split: option.splits)
  have nw: "neighbour_weight g u x = Some w \<Longrightarrow> neighbour_weight ?g u x = Some w" for u x w
    using none by (auto simp: neighbour_weight_def m split: option.splits)
  from assms False have d: "distinct (map fst ?g)" by (simp add: w_consistent_def)
  from assms have old: "\<And>x v. map_of g x = Some v \<Longrightarrow> w_item v = x
        \<and> (\<forall>u w. map_of (w_neighbours v) u = Some w \<longrightarrow> neighbour_weight g u x = Some w)"
    unfolding w_consistent_def by blast
  have "w_consistent ?g"
    unfolding w_consistent_def
  proof (intro conjI allI impI)
    show "distinct (map fst ?g)" by (rule d)
  next
    fix x v assume a: "map_of ?g x = Some v"
    from a[unfolded m] show "w_item v = x"
      using old[of x v] by (auto simp: WeightedVertex_init_def split: if_splits)
  next
    fix x v u w assume a: "map_of ?g x = Some v" and b: "map_of (w_neighbours v) u = Some w"
    show "neighbour_weight ?g u x = Some w"
    proof (cases "x = it")
      case True
      with a[unfolded m] have "w_neighbours v = []" by (auto simp: WeightedVertex_init_def)
      with b show ?thesis by simp
    next
      case False
      with a[unfolded m] have "map_of g x = Some v" by simp
      with old[of x v] b have "neighbour_weight g u x = Some w" by blast
      then show ?thesis by (rule nw)
    qed
  qed
  with False show ?thesis by (simp add: w_add_vertex_def)
qed

lemma w_consistent_add_edge:
  assumes c: "w_consistent g" and e: "w_add_edge g item1 item2 weight = Inr g'"
  shows "w_consistent g'"
proof -
  from e have k1: "item1 \<in> fst ` set g" and k2: "item2 \<in> fst ` set g"
    and g': "g' = neighbours_store (neighbours_store g item1 item2 weight) item2 item1 weight"
    by (auto simp: w_add_edge_def split: if_splits)
  from k1 obtain v1 where v1: "map_of g item1 = Some v1"
    by (metis domD dom_map_of_conv_image_fst)
  from k2 obtain v2 where v2: "map_of g item2 = Some v2"
    by (metis domD dom_map_of_conv_image_fst)
  from c have old: "\<And>x v. map_of g x = Some v \<Longrightarrow> w_item v = x
        \<and> (\<forall>u w. map_of (w_neighbours v) u = Some w \<longrightarrow> neighbour_weight g u x = Some w)"
    unfolding w_consistent_def by blast
  from c have d: "distinct (map fst g')"
    unfolding g' w_consistent_def by (simp add: distinct_neighbours_store)
  have nw: "neighbour_weight g' z v =
      (if (z = item2 \<and> v = item1) \<or> (z = item1 \<and> v = item2) then Some weight
       else neighbour_weight g z v)" for z v
    unfolding g' using v1 v2 by (auto simp: neighbour_weight_store map_of_neighbours_store)
  show ?thesis
    unfolding w_consistent_def
  proof (intro conjI allI impI)
    show "distinct (map fst g')" by (rule d)
  next
    fix x v assume "map_of g' x = Some v"
    then show "w_item v = x"
      unfolding g' using old[of x]
      by (auto simp: map_of_neighbours_store split: if_splits)
  next
    fix x v u w assume a: "map_of g' x = Some v" and b: "map_of (w_neighbours v) u = Some w"
    from a b have "(x = item1 \<and> u = item2 \<and> w = weight) \<or> (x = item2 \<and> u = item1 \<and> w = weight)
        \<or> (\<exists>v0. map_of g x = Some v0 \<and> map_of (w_neighbours v0) u = Some w
              \<and> \<not> (x = item1 \<and> u = item2) \<and> \<not> (x = item2 \<and> u = item1))"
      unfolding g'
      by (auto simp: map_of_neighbours_store update_conv' split: if_splits)
    then show "neighbour_weight g' u x = Some w"
      using old[of x] by (auto simp: nw)
  qed
qed

lemma w_consistent_exec_op: "w_consistent g \<Longrightarrow> w_consistent (w_exec_op g op)"
  by (cases op) (auto simp: w_consistent_add_vertex w_consistent_add_edge split: sum.splits)

lemma w_consistent_build: "w_consistent (w_build ops)"
proof (induction ops rule: rev_induct)
  case Nil
  show ?case by (simp add: w_build_def WeightedGraph_init_def w_consistent_def)
next
  case (snoc op ops)
  then show ?case by (simp add: w_build_def w_consistent_exec_op)
qed

lemma map_of_neighbours_add:
  "map_of (neighbours_add g a u) k =
     (if k = a then map_option (\<lambda>v. v\<lparr>neighbours := insert u (neighbours v)\<rparr>) (map_of g a)
      else map_of g k)"
  by (simp add: neighbours_add_def map_of_map_entry split: option.splits)

lemma consistent_neighbours_add: "consistent g \<Longrightarrow> consistent (neighbours_add g a u)"
proof -
  assume c: "consistent g"
  then have "distinct (map fst (neighbours_add g a u))"
    by (simp add: consistent_def neighbours_add_def distinct_map_entry)
  moreover have "item v = k" if "map_of (neighbours_add g a u) k = Some v" for k v
  proof (cases "k = a")
    case True
    with that obtain v0 where "map_of g a = Some v0" "v = v0\<lparr>neighbours := insert u (neighbours v0)\<rparr>"
      by (auto simp: map_of_neighbours_add)
    with c True show ?thesis unfolding consistent_def by auto
  next
    case False
    with that have "map_of g k = Some v" by (simp add: map_of_neighbours_add)
    with c show ?thesis unfolding consistent_def by blast
  qed
  ultimately show ?thesis unfolding consistent_def by blast
qed

lemma consistent_add_vertex: "consistent g \<Longrightarrow> consistent (add_vertex g it k)"
proof (cases "it \<in> fst ` set g")
  case True
  then show "consistent g \<Longrightarrow> ?thesis" by (simp add: add_vertex_def)
next
  case False
  assume c: "consistent g"
  from False have none: "map_of g it = None" by (simp add: map_of_eq_None_iff)
  let ?g = "g @ [(it, Vertex_init it k)]"
  from c False have "distinct (map fst ?g)" by (simp add: consistent_def)
  moreover have "item v = x" if "map_of ?g x = Some v" for x v
  proof (cases "map_of g x")
    case None
    with that show ?thesis by (auto simp: map_add_def Vertex_init_def split: if_splits)
  next
    case (Some v0)
    with that have "v = v0" by (simp add: map_add_def)
    with Some c show ?thesis unfolding consistent_def by blast
  qed
  ultimately have "consistent ?g" unfolding consistent_def by blast
  with False show ?thesis by (simp add: add_vertex_def)
qed

lemma consistent_exec_op: "consistent g \<Longrightarrow> consistent (exec_op g op)"
  by (cases op) (auto simp: consistent_add_vertex consistent_neighbours_add add_edge_def)

lemma consistent_build: "consistent (build ops)"
proof (induction ops rule: rev_induct)
  case Nil
  show ?case by (simp add: build_def Graph_init_def consistent_def)
next
  case (snoc op ops)
  then show ?case by (simp add: build_def consistent_exec_op)
qed

lemma consistent_lookup:
  assumes "consistent g" and "(k, v) \<in> set g"
  shows "map_of g k = Some v \<and> item v = k"
  using assms unfolding consistent_def by (metis map_of_eq_Some_iff)

lemma w_consistent_lookup:
  assumes "w_consistent g" and "(k, v) \<in> set g"
  shows "map_of g k = Some v \<and> w_item v = k"
  using assms unfolding w_consistent_def by (metis map_of_eq_Some_iff)

section \<open>The ranking loops sort\<close>

lemma precedes_trans: "precedes sc it x y \<Longrightarrow> precedes sc it y z \<Longrightarrow> precedes sc it x z"
  by (auto simp: precedes_def)

lemma precedes_total: "\<not> precedes sc it x y \<Longrightarrow> precedes sc it y x"
  by (auto simp: precedes_def)

lemma rank_body_alt:
  "rank_body sc it i j xs = (if j < i \<and> \<not> precedes sc it (xs ! j) (xs ! i) then swap i j xs else xs)"
  by (auto simp: rank_body_def precedes_def)

lemma length_swap: "length (swap i j xs) = length xs"
  by (simp add: swap_def)

lemma length_rank_body: "length (rank_body sc it i j xs) = length xs"
  by (simp add: rank_body_alt length_swap)

lemma mset_swap_books: "i < length xs \<Longrightarrow> j < length xs \<Longrightarrow> mset (swap i j xs) = mset xs"
  unfolding swap_def by (rule mset_swap)

lemma mset_rank_body: "i < length xs \<Longrightarrow> j < length xs \<Longrightarrow> mset (rank_body sc it i j xs) = mset xs"
  by (simp add: rank_body_alt mset_swap_books)

lemma rank_body_step:
  assumes i: "i < length xs" and k: "k < i"
    and srt: "sorted_upto (precedes sc it) i xs"
    and below: "\<forall>a<k. precedes sc it (xs ! a) (xs ! i)"
  shows "sorted_upto (precedes sc it) i (rank_body sc it i k xs)
       \<and> (\<forall>a<Suc k. precedes sc it (rank_body sc it i k xs ! a) (rank_body sc it i k xs ! i))"
proof (cases "precedes sc it (xs ! k) (xs ! i)")
  case True
  then have same: "rank_body sc it i k xs = xs" by (simp add: rank_body_alt)
  from True below have "\<forall>a<Suc k. precedes sc it (xs ! a) (xs ! i)"
    by (auto simp: less_Suc_eq)
  with srt same show ?thesis by simp
next
  case False
  let ?ys = "rank_body sc it i k xs"
  from False k have ys: "?ys = xs[i := xs ! k, k := xs ! i]"
    by (simp add: rank_body_alt swap_def)
  from False have ik: "precedes sc it (xs ! i) (xs ! k)" by (rule precedes_total)
  have nth_i: "?ys ! i = xs ! k" using i k by (simp add: ys)
  have nth_k: "?ys ! k = xs ! i" using i k by (simp add: ys)
  have nth_o: "\<And>a. a \<noteq> i \<Longrightarrow> a \<noteq> k \<Longrightarrow> ?ys ! a = xs ! a" by (simp add: ys)
  have "precedes sc it (?ys ! a) (?ys ! b)" if ab: "a < b" "b < i" for a b
  proof -
    consider "b = k" | "a = k" | "a \<noteq> k" "b \<noteq> k" by blast
    then show ?thesis
    proof cases
      case 1
      with ab have "a < k" by simp
      with below have "precedes sc it (xs ! a) (xs ! i)" by blast
      with 1 ab nth_k nth_o[of a] show ?thesis by simp
    next
      case 2
      with ab srt have "precedes sc it (xs ! k) (xs ! b)" by (simp add: sorted_upto_def)
      with ik have "precedes sc it (xs ! i) (xs ! b)" by (rule precedes_trans)
      with 2 ab nth_k nth_o[of b] show ?thesis by simp
    next
      case 3
      with ab srt nth_o[of a] nth_o[of b] show ?thesis by (simp add: sorted_upto_def)
    qed
  qed
  then have s: "sorted_upto (precedes sc it) i ?ys" by (simp add: sorted_upto_def)
  have "precedes sc it (?ys ! a) (?ys ! i)" if "a < Suc k" for a
  proof (cases "a = k")
    case True
    with ik nth_i nth_k show ?thesis by simp
  next
    case False
    with that have ak: "a < k" by simp
    with k srt have "precedes sc it (xs ! a) (xs ! k)" by (simp add: sorted_upto_def)
    with ak k nth_i nth_o[of a] show ?thesis by simp
  qed
  with s show ?thesis by blast
qed

lemma rank_inner_prefix:
  assumes i: "i < length xs" and srt: "sorted_upto (precedes sc it) i xs"
  shows "k \<le> i \<Longrightarrow>
     length (fold (rank_body sc it i) [0..<k] xs) = length xs
   \<and> mset (fold (rank_body sc it i) [0..<k] xs) = mset xs
   \<and> sorted_upto (precedes sc it) i (fold (rank_body sc it i) [0..<k] xs)
   \<and> (\<forall>a<k. precedes sc it (fold (rank_body sc it i) [0..<k] xs ! a) (fold (rank_body sc it i) [0..<k] xs ! i))"
proof (induction k)
  case 0
  with srt show ?case by simp
next
  case (Suc k)
  let ?ys = "fold (rank_body sc it i) [0..<k] xs"
  from Suc have ih: "length ?ys = length xs" "mset ?ys = mset xs"
      "sorted_upto (precedes sc it) i ?ys" "\<forall>a<k. precedes sc it (?ys ! a) (?ys ! i)"
    by simp_all
  have f: "fold (rank_body sc it i) [0..<Suc k] xs = rank_body sc it i k ?ys" by simp
  from Suc.prems have ki: "k < i" by simp
  from i ih(1) have i': "i < length ?ys" by simp
  from rank_body_step[OF i' ki ih(3) ih(4)] ih(1,2) i' ki
  show ?case unfolding f by (simp add: length_rank_body mset_rank_body)
qed

lemma rank_body_above: "i \<le> j \<Longrightarrow> rank_body sc it i j xs = xs"
  by (simp add: rank_body_alt)

lemma fold_rank_body_above: "\<forall>j\<in>set js. i \<le> j \<Longrightarrow> fold (rank_body sc it i) js xs = xs"
  by (induction js arbitrary: xs) (simp_all add: rank_body_above)

lemma rank_inner_eq:
  assumes "i < length xs"
  shows "rank_inner sc it i xs = fold (rank_body sc it i) [0..<i] xs"
proof -
  from assms have "[0..<length xs] = [0..<i] @ [i..<length xs]"
    by (metis le_add_diff_inverse less_imp_le_nat upt_add_eq_append zero_le)
  then show ?thesis
    by (simp add: rank_inner_def fold_rank_body_above)
qed

lemma rank_inner_sorted:
  assumes i: "i < length xs" and srt: "sorted_upto (precedes sc it) i xs"
  shows "length (rank_inner sc it i xs) = length xs
       \<and> mset (rank_inner sc it i xs) = mset xs
       \<and> sorted_upto (precedes sc it) (Suc i) (rank_inner sc it i xs)"
proof -
  let ?ys = "rank_inner sc it i xs"
  from rank_inner_prefix[OF i srt, of i] rank_inner_eq[OF i, of sc it]
  have a: "length ?ys = length xs" "mset ?ys = mset xs" "sorted_upto (precedes sc it) i ?ys"
      "\<forall>a<i. precedes sc it (?ys ! a) (?ys ! i)"
    by simp_all
  have "sorted_upto (precedes sc it) (Suc i) ?ys"
    unfolding sorted_upto_def
  proof (intro allI impI)
    fix a b assume "a < b \<and> b < Suc i"
    then show "precedes sc it (?ys ! a) (?ys ! b)"
      using a(3,4) by (cases "b = i") (auto simp: sorted_upto_def)
  qed
  with a show ?thesis by simp
qed

lemma rank_books_prefix:
  "k \<le> length xs \<Longrightarrow>
     length (fold (rank_inner sc it) [0..<k] xs) = length xs
   \<and> mset (fold (rank_inner sc it) [0..<k] xs) = mset xs
   \<and> sorted_upto (precedes sc it) k (fold (rank_inner sc it) [0..<k] xs)"
proof (induction k)
  case 0
  show ?case by (simp add: sorted_upto_def)
next
  case (Suc k)
  let ?ys = "fold (rank_inner sc it) [0..<k] xs"
  from Suc have ih: "length ?ys = length xs" "mset ?ys = mset xs"
      "sorted_upto (precedes sc it) k ?ys"
    by simp_all
  from Suc.prems ih(1) have k: "k < length ?ys" by simp
  from rank_inner_sorted[OF k ih(3)] ih(1,2)
  show ?case by simp
qed

lemma rank_books_sorted:
  "sorted_wrt (precedes sc it) (rank_books sc it xs)"
  using rank_books_prefix[of "length xs" xs sc it]
  by (simp add: rank_books_def sorted_upto_def sorted_wrt_iff_nth_less)

lemma mset_rank_books: "mset (rank_books sc it xs) = mset xs"
  using rank_books_prefix[of "length xs" xs sc it] by (simp add: rank_books_def)

lemma set_rank_books: "set (rank_books sc it xs) = set xs"
  using mset_rank_books[of sc it xs] by (metis set_mset_mset)

section \<open>The strict weighted similarity\<close>

lemma strict_defined:
  assumes c: "w_consistent g" and a: "map_of g a = Some va" and b: "map_of g b = Some vb"
  shows "similarity_score_strict g va vb =
     Inr (if w_degree va = 0 \<or> w_degree vb = 0 then 0
          else of_nat (card {z \<in> neighbour_set va \<inter> neighbour_set vb.
                              get_weight g z a = get_weight g z b})
               / of_nat (card (neighbour_set va \<union> neighbour_set vb)))"
proof -
  from c a b have ia: "w_item va = a" and ib: "w_item vb = b"
    unfolding w_consistent_def by blast+
  have na: "\<exists>w. neighbour_weight g z a = Some w" if "z \<in> neighbour_set va" for z
  proof -
    from that obtain w where "map_of (w_neighbours va) z = Some w"
      unfolding neighbour_set_def by (metis domD dom_map_of_conv_image_fst set_map)
    with c a show ?thesis unfolding w_consistent_def by blast
  qed
  have nb: "\<exists>w. neighbour_weight g z b = Some w" if "z \<in> neighbour_set vb" for z
  proof -
    from that obtain w where "map_of (w_neighbours vb) z = Some w"
      unfolding neighbour_set_def by (metis domD dom_map_of_conv_image_fst set_map)
    with c b show ?thesis unfolding w_consistent_def by blast
  qed
  have gw: "(neighbour_weight g z a = neighbour_weight g z b) = (get_weight g z a = get_weight g z b)"
    if "z \<in> neighbour_set va \<inter> neighbour_set vb" for z
  proof -
    from that na[of z] nb[of z] obtain wa wb where
      w: "neighbour_weight g z a = Some wa" "neighbour_weight g z b = Some wb" by blast
    then obtain zv where zv: "map_of g z = Some zv"
      by (auto simp: neighbour_weight_def split: option.splits)
    with w a b show ?thesis by (simp add: neighbour_weight_def get_weight_def)
  qed
  have f: "Set.filter (\<lambda>z. neighbour_weight g z a = neighbour_weight g z b)
             (neighbour_set va \<inter> neighbour_set vb)
         = {z \<in> neighbour_set va \<inter> neighbour_set vb. get_weight g z a = get_weight g z b}"
    using gw by auto
  have all: "\<forall>z \<in> neighbour_set va \<inter> neighbour_set vb.
       neighbour_weight g z a \<noteq> None \<and> neighbour_weight g z b \<noteq> None"
    using na nb by fastforce
  show ?thesis
    unfolding similarity_score_strict_def Let_def ia ib f
    using all by simp
qed

text \<open>
  Claim C6. In a weighted graph built by the construction calls, for two present items
  and the strict score type (any \<open>score_type\<close> other than \<open>unweighted\<close>),
  \<open>get_similarity_score\<close> returns 0 when one of the two vertices has degree 0, and
  otherwise the number of common neighbours \<open>z\<close> whose weight to the first item equals
  their weight to the second, divided by the size of the union of the two neighbour sets.
  No \<open>KeyError\<close> arises, since every dictionary entry is mirrored.
\<close>

theorem strict_similarity_value:
  assumes "map_of (w_build ops) a = Some va" and "map_of (w_build ops) b = Some vb"
    and "score_type \<noteq> ''unweighted''"
  shows "w_get_similarity_score (w_build ops) a b score_type =
     Inr (if w_degree va = 0 \<or> w_degree vb = 0 then 0
          else of_nat (card {z \<in> neighbour_set va \<inter> neighbour_set vb.
                              get_weight (w_build ops) z a = get_weight (w_build ops) z b})
               / of_nat (card (neighbour_set va \<union> neighbour_set vb)))"
proof -
  from assms(1,2) have "a \<in> set (map fst (w_build ops))" "b \<in> set (map fst (w_build ops))"
    by (auto dest: map_of_SomeD intro: rev_image_eqI)
  with assms show ?thesis
    by (simp add: w_get_similarity_score_def w_get_all_vertices_def
        strict_defined[OF w_consistent_build])
qed

theorem strict_similarity_value_witness:
  "map_of review_graph 10 = Some \<lparr>w_item = 10, w_kind = ''user'', w_neighbours = [(1, 5), (2, 3)]\<rparr>
   \<and> map_of review_graph 11 = Some \<lparr>w_item = 11, w_kind = ''user'', w_neighbours = [(1, 4), (2, 3)]\<rparr>
   \<and> ''strict'' \<noteq> ''unweighted''
   \<and> w_get_similarity_score review_graph 10 11 ''strict'' = Inr (1 / 2)
   \<and> of_nat (card {z \<in> neighbour_set \<lparr>w_item = 10, w_kind = ''user'', w_neighbours = [(1, 5), (2, 3)]\<rparr>
                        \<inter> neighbour_set \<lparr>w_item = 11, w_kind = ''user'', w_neighbours = [(1, 4), (2, 3)]\<rparr>.
                     get_weight review_graph z 10 = get_weight review_graph z 11})
       / of_nat (card (neighbour_set \<lparr>w_item = 10::nat, w_kind = ''user'', w_neighbours = [(1, 5), (2, 3)]\<rparr>
                        \<union> neighbour_set \<lparr>w_item = 11, w_kind = ''user'', w_neighbours = [(1, 4), (2, 3)]\<rparr>))
       = (1 / 2 :: rat)"
proof -
  let ?va = "\<lparr>w_item = 10::nat, w_kind = ''user'', w_neighbours = [(1, 5), (2, 3)]\<rparr>"
  let ?vb = "\<lparr>w_item = 11::nat, w_kind = ''user'', w_neighbours = [(1, 4), (2, 3)]\<rparr>"
  have a: "map_of review_graph 10 = Some ?va" and b: "map_of review_graph 11 = Some ?vb"
    by (simp_all add: review_graph_eq)
  have s: "''strict'' \<noteq> ''unweighted''" by simp
  have v: "w_get_similarity_score review_graph 10 11 ''strict'' = Inr (1 / 2)"
    by code_simp
  have d: "\<not> (w_degree ?va = 0 \<or> w_degree ?vb = 0)" by (simp add: w_degree_def)
  note t = strict_similarity_value[of review_calls 10 ?va 11 ?vb "''strict''",
      folded review_graph_def, OF a b s, unfolded v if_not_P[OF d]]
  from t have x: "of_nat (card {z \<in> neighbour_set ?va \<inter> neighbour_set ?vb.
                     get_weight review_graph z 10 = get_weight review_graph z 11})
       / of_nat (card (neighbour_set ?va \<union> neighbour_set ?vb)) = (1 / 2 :: rat)"
    by (simp only: sum.inject)
  show ?thesis by (rule conjI[OF a conjI[OF b conjI[OF s conjI[OF v x]]]])
qed

section \<open>The list that \<open>recommend_books\<close> returns\<close>

lemma slice_to_take: "\<exists>n. slice_to xs k = take n xs"
  by (auto simp: slice_to_def)

lemma truncate_books_cases:
  "\<exists>n. truncate_books it xs limit = map (\<lambda>x. Title (it x)) (take n xs)
     \<or> truncate_books it xs limit = map VertexObj (take n xs)"
proof (cases "limit \<le> int (length xs)")
  case True
  from slice_to_take[of xs "limit + 1"] obtain n where "slice_to xs (limit + 1) = take n xs" ..
  with True show ?thesis by (auto simp: truncate_books_def)
next
  case False
  then have "truncate_books it xs limit = map VertexObj (take (length xs) xs)"
    by (simp add: truncate_books_def)
  then show ?thesis by blast
qed

lemma entry_item_titles: "map (entry_item it) (map (\<lambda>x. Title (it x)) vs) = map it vs"
  by simp

lemma entry_item_objects: "map (entry_item it) (map VertexObj vs) = map it vs"
  by simp

lemma ranked_result:
  "\<exists>vs. map (entry_item it) (truncate_books it (filter (\<lambda>x. sc x \<noteq> 0) (rank_books sc it pos)) limit)
          = map it vs
      \<and> set vs \<subseteq> set pos \<and> (\<forall>v\<in>set vs. sc v \<noteq> 0) \<and> sorted_wrt (precedes sc it) vs"
proof -
  let ?nz = "filter (\<lambda>x. sc x \<noteq> 0) (rank_books sc it pos)"
  from truncate_books_cases[of it ?nz limit] obtain n where
    n: "truncate_books it ?nz limit = map (\<lambda>x. Title (it x)) (take n ?nz)
      \<or> truncate_books it ?nz limit = map VertexObj (take n ?nz)" ..
  let ?vs = "take n ?nz"
  from n have 1: "map (entry_item it) (truncate_books it ?nz limit) = map it ?vs"
    by (auto simp: entry_item_titles entry_item_objects simp del: map_map)
  have "set ?vs \<subseteq> set ?nz" by (rule set_take_subset)
  then have 2: "set ?vs \<subseteq> set pos" and 3: "\<forall>v\<in>set ?vs. sc v \<noteq> 0"
    by (auto simp: set_rank_books)
  have "sorted_wrt (precedes sc it) ?nz"
    by (simp add: sorted_wrt_filter rank_books_sorted)
  then have 4: "sorted_wrt (precedes sc it) ?vs" by (rule sorted_wrt_take)
  from 1 2 3 4 show ?thesis by blast
qed

lemma ordered_by_desc:
  assumes "sorted_wrt (precedes sc it) vs" and "\<forall>v\<in>set vs. score (it v) = Inr (sc v)"
  shows "ordered_by (\<lambda>x y. y \<le> x) score (map it vs)"
  unfolding ordered_by_def sorted_wrt_map
  using assms(1)
proof (rule sorted_wrt_mono_rel[rotated])
  fix x y assume "x \<in> set vs" "y \<in> set vs" "precedes sc it x y"
  with assms(2) show "case (score (it x), score (it y)) of
      (Inr s, Inr t) \<Rightarrow> t < s \<or> (s = t \<and> it y \<le> it x) | _ \<Rightarrow> False"
    by (auto simp: precedes_def)
qed

lemma nonzero_books_intro:
  assumes "\<forall>v\<in>set vs. kind_of (it v) = Some ''book'' \<and> score (it v) = Inr (sc v) \<and> sc v \<noteq> 0"
  shows "nonzero_books kind_of score (map it vs)"
  using assms by (auto simp: nonzero_books_def list_all_iff)

lemma recommend_books_ranked:
  assumes c: "consistent g" and b: "map_of g book = Some b"
  shows "\<exists>es. recommend_books g book limit = Inr es
    \<and> nonzero_books (\<lambda>k. map_option kind (map_of g k)) (\<lambda>k. get_similarity_score g k book)
        (map (entry_item item) es)
    \<and> ordered_by (\<lambda>x y. y \<le> x) (\<lambda>k. get_similarity_score g k book) (map (entry_item item) es)"
proof -
  let ?pos = "map snd (filter (\<lambda>(x, v). kind v = ''book'') g)"
  let ?sc = "\<lambda>x. similarity_score x b"
  let ?es = "truncate_books item (filter (\<lambda>x. ?sc x \<noteq> 0) (rank_books ?sc item ?pos)) limit"
  from b have r: "recommend_books g book limit = Inr ?es"
    by (simp add: recommend_books_def Let_def)
  from ranked_result[of item ?sc ?pos limit] obtain vs where
    vs: "map (entry_item item) ?es = map item vs" "set vs \<subseteq> set ?pos"
      "\<forall>v\<in>set vs. ?sc v \<noteq> 0" "sorted_wrt (precedes ?sc item) vs"
    by blast
  from b have bk: "book \<in> set (map fst g)" by (auto dest: map_of_SomeD intro: rev_image_eqI)
  have v: "kind v = ''book'' \<and> map_of g (item v) = Some v
         \<and> get_similarity_score g (item v) book = Inr (?sc v)" if "v \<in> set vs" for v
  proof -
    from that vs(2) obtain k where k: "(k, v) \<in> set g" "kind v = ''book''" by auto
    from consistent_lookup[OF c k(1)] have l: "map_of g k = Some v" "item v = k" by simp_all
    from k(1) have "k \<in> set (map fst g)" by (auto intro: rev_image_eqI)
    with l b bk k(2) show ?thesis
      by (simp add: get_similarity_score_def get_all_vertices_def)
  qed
  have 1: "nonzero_books (\<lambda>k. map_option kind (map_of g k)) (\<lambda>k. get_similarity_score g k book)
        (map item vs)"
    by (rule nonzero_books_intro[where sc = ?sc]) (use v vs(3) in auto)
  have 2: "ordered_by (\<lambda>x y. y \<le> x) (\<lambda>k. get_similarity_score g k book) (map item vs)"
    by (rule ordered_by_desc[OF vs(4)]) (use v in auto)
  from r 1 2 vs(1) show ?thesis by simp
qed

lemma book_score_defined:
  assumes c: "w_consistent g" and b: "map_of g book = Some b" and x: "(k, x) \<in> set g"
  shows "\<exists>s. book_score g score_type b x = Inr s
           \<and> w_get_similarity_score g (w_item x) book score_type = Inr s"
proof -
  from w_consistent_lookup[OF c x] have l: "map_of g k = Some x" "w_item x = k" by simp_all
  from x have kk: "k \<in> set (map fst g)" by (auto intro: rev_image_eqI)
  from b have bk: "book \<in> set (map fst g)" by (auto dest: map_of_SomeD intro: rev_image_eqI)
  show ?thesis
  proof (cases "score_type = ''unweighted''")
    case True
    with l b kk bk show ?thesis
      by (simp add: book_score_def w_get_similarity_score_def w_get_all_vertices_def)
  next
    case False
    with l b kk bk strict_defined[OF c l(1) b] show ?thesis
      by (simp add: book_score_def w_get_similarity_score_def w_get_all_vertices_def)
  qed
qed

lemma w_recommend_books_ranked:
  assumes c: "w_consistent g" and b: "map_of g book = Some b"
  shows "\<exists>es. w_recommend_books g book limit score_type = Inr es
    \<and> nonzero_books (\<lambda>k. map_option w_kind (map_of g k))
        (\<lambda>k. w_get_similarity_score g k book score_type) (map (entry_item w_item) es)
    \<and> ordered_by (\<lambda>x y. y \<le> x) (\<lambda>k. w_get_similarity_score g k book score_type)
        (map (entry_item w_item) es)"
proof -
  let ?pos = "map snd (filter (\<lambda>(x, v). w_kind v = ''book'') g)"
  let ?sc = "\<lambda>x. projr (book_score g score_type b x)"
  let ?es = "truncate_books w_item (filter (\<lambda>x. ?sc x \<noteq> 0) (rank_books ?sc w_item ?pos)) limit"
  have d: "\<not> isl (book_score g score_type b x)" if "x \<in> set ?pos" for x
  proof -
    from that obtain k where "(k, x) \<in> set g" by auto
    from book_score_defined[OF c b this, of score_type] show ?thesis by auto
  qed
  with b have r: "w_recommend_books g book limit score_type = Inr ?es"
    by (simp add: w_recommend_books_def Let_def)
  from ranked_result[of w_item ?sc ?pos limit] obtain vs where
    vs: "map (entry_item w_item) ?es = map w_item vs" "set vs \<subseteq> set ?pos"
      "\<forall>v\<in>set vs. ?sc v \<noteq> 0" "sorted_wrt (precedes ?sc w_item) vs"
    by blast
  have v: "w_kind v = ''book'' \<and> map_of g (w_item v) = Some v
         \<and> w_get_similarity_score g (w_item v) book score_type = Inr (?sc v)" if "v \<in> set vs" for v
  proof -
    from that vs(2) obtain k where k: "(k, v) \<in> set g" "w_kind v = ''book''" by auto
    from w_consistent_lookup[OF c k(1)] have l: "map_of g k = Some v" "w_item v = k" by simp_all
    from book_score_defined[OF c b k(1), of score_type] l k(2) show ?thesis by auto
  qed
  have 1: "nonzero_books (\<lambda>k. map_option w_kind (map_of g k))
        (\<lambda>k. w_get_similarity_score g k book score_type) (map w_item vs)"
    by (rule nonzero_books_intro[where sc = ?sc]) (use v vs(3) in auto)
  have 2: "ordered_by (\<lambda>x y. y \<le> x) (\<lambda>k. w_get_similarity_score g k book score_type)
        (map w_item vs)"
    by (rule ordered_by_desc[OF vs(4)]) (use v in auto)
  from r 1 2 vs(1) show ?thesis by simp
qed

text \<open>
  Claim C5, as the code has it. For a graph built by the construction calls and a query
  book that is present, \<open>recommend_books\<close> returns a list (for \<open>Graph\<close>, and for
  \<open>WeightedGraph\<close> with either score type) whose item keys are books with a non-zero
  similarity to the query book, ordered by similarity descending, equal scores being
  ordered by \<^emph>\<open>descending\<close> item key: the second swap of the loops moves the larger
  item to the front.
\<close>

theorem recommend_books_ranking:
  assumes "map_of (build ops) book = Some b" and "map_of (w_build wops) wbook = Some wb"
  shows "(\<exists>es. recommend_books (build ops) book limit = Inr es
      \<and> nonzero_books (\<lambda>k. map_option kind (map_of (build ops) k))
          (\<lambda>k. get_similarity_score (build ops) k book) (map (entry_item item) es)
      \<and> ordered_by (\<lambda>x y. y \<le> x) (\<lambda>k. get_similarity_score (build ops) k book)
          (map (entry_item item) es))
    \<and> (\<exists>es. w_recommend_books (w_build wops) wbook limit score_type = Inr es
      \<and> nonzero_books (\<lambda>k. map_option w_kind (map_of (w_build wops) k))
          (\<lambda>k. w_get_similarity_score (w_build wops) k wbook score_type)
          (map (entry_item w_item) es)
      \<and> ordered_by (\<lambda>x y. y \<le> x)
          (\<lambda>k. w_get_similarity_score (w_build wops) k wbook score_type)
          (map (entry_item w_item) es))"
  using recommend_books_ranked[OF consistent_build assms(1)]
    w_recommend_books_ranked[OF w_consistent_build assms(2)]
  by blast

theorem recommend_books_ranking_witness:
  "map_of shelf_graph 4 = Some \<lparr>item = 4, kind = ''book'', neighbours = {10}\<rparr>
   \<and> map_of w_shelf_graph 4 = Some \<lparr>w_item = 4, w_kind = ''book'', w_neighbours = [(10, 5)]\<rparr>
   \<and> recommend_books shelf_graph 4 3 = Inr [Title 4, Title 2, Title 1]
   \<and> nonzero_books (\<lambda>k. map_option kind (map_of shelf_graph k))
         (\<lambda>k. get_similarity_score shelf_graph k 4) [4, 2, 1]
   \<and> ordered_by (\<lambda>x y. y \<le> x) (\<lambda>k. get_similarity_score shelf_graph k 4) [4, 2, 1]
   \<and> w_recommend_books w_shelf_graph 4 3 ''strict'' = Inr [Title 4, Title 2, Title 1]
   \<and> nonzero_books (\<lambda>k. map_option w_kind (map_of w_shelf_graph k))
         (\<lambda>k. w_get_similarity_score w_shelf_graph k 4 ''strict'') [4, 2, 1]
   \<and> ordered_by (\<lambda>x y. y \<le> x) (\<lambda>k. w_get_similarity_score w_shelf_graph k 4 ''strict'')
         [4, 2, 1]"
proof -
  have a: "map_of shelf_graph 4 = Some \<lparr>item = 4, kind = ''book'', neighbours = {10}\<rparr>"
    by (simp add: shelf_graph_eq)
  have b: "map_of w_shelf_graph 4 = Some \<lparr>w_item = 4, w_kind = ''book'', w_neighbours = [(10, 5)]\<rparr>"
    by (simp add: w_shelf_graph_eq)
  have r: "recommend_books shelf_graph 4 3 = Inr [Title 4, Title 2, Title 1]"
    by code_simp
  have w: "w_recommend_books w_shelf_graph 4 3 ''strict'' = Inr [Title 4, Title 2, Title 1]"
    by code_simp
  from recommend_books_ranking[of shelf_calls 4 _ w_shelf_calls 4 _ 3 "''strict''",
      folded shelf_graph_def w_shelf_graph_def, OF a b]
  show ?thesis using a b by (simp add: r w)
qed

text \<open>
  The claim as stated fails: in \<open>shelf_graph\<close> the books 2 and 1 have the same
  similarity to book 4, and the larger key comes first, so the returned keys are not in
  ascending order among equal scores.
\<close>

theorem recommend_books_ranking_counterexample:
  "recommend_books shelf_graph 4 3 = Inr [Title 4, Title 2, Title 1]
   \<and> get_similarity_score shelf_graph 2 4 = Inr 1
   \<and> get_similarity_score shelf_graph 1 4 = Inr 1
   \<and> \<not> ordered_by (\<lambda>x y. x \<le> y) (\<lambda>k. get_similarity_score shelf_graph k 4) [4, 2, 1]
   \<and> w_recommend_books w_shelf_graph 4 3 ''unweighted'' = Inr [Title 4, Title 2, Title 1]
   \<and> \<not> ordered_by (\<lambda>x y. x \<le> y)
         (\<lambda>k. w_get_similarity_score w_shelf_graph k 4 ''unweighted'') [4, 2, 1]"
proof -
  have r: "recommend_books shelf_graph 4 3 = Inr [Title 4, Title 2, Title 1]"
    by code_simp
  have s: "get_similarity_score shelf_graph 2 4 = Inr 1" "get_similarity_score shelf_graph 1 4 = Inr 1"
    by code_simp+
  have w: "w_recommend_books w_shelf_graph 4 3 ''unweighted'' = Inr [Title 4, Title 2, Title 1]"
    by code_simp
  have n: "\<not> ordered_by (\<lambda>x y. x \<le> y) (\<lambda>k. get_similarity_score shelf_graph k 4) [4, 2, 1]"
    by code_simp
  have wn: "\<not> ordered_by (\<lambda>x y. x \<le> y)
         (\<lambda>k. w_get_similarity_score w_shelf_graph k 4 ''unweighted'') [4, 2, 1]"
    by code_simp
  from r s w n wn show ?thesis by blast
qed

section \<open>Length and content of the returned list on \<open>shelf_graph\<close>\<close>

text \<open>
  Claim C1 at a concrete input. The books 4, 2 and 1 have a non-zero similarity to
  book 4. With \<open>limit = 1\<close> the slice \<open>pos_books[:(limit + 1)]\<close> keeps two of them, one
  more than the limit. With \<open>limit = 5\<close> the test \<open>len(pos_books) >= limit\<close> fails, step 5
  is skipped and the vertex objects are returned instead of item keys.
\<close>

theorem recommend_books_limit_evaluation:
  "recommend_books shelf_graph 4 1 = Inr [Title 4, Title 2]
   \<and> recommend_books shelf_graph 4 5 =
       Inr [VertexObj \<lparr>item = 4, kind = ''book'', neighbours = {10}\<rparr>,
            VertexObj \<lparr>item = 2, kind = ''book'', neighbours = {10}\<rparr>,
            VertexObj \<lparr>item = 1, kind = ''book'', neighbours = {10}\<rparr>]
   \<and> w_recommend_books w_shelf_graph 4 1 ''unweighted'' = Inr [Title 4, Title 2]
   \<and> w_recommend_books w_shelf_graph 4 1 ''strict'' = Inr [Title 4, Title 2]
   \<and> w_recommend_books w_shelf_graph 4 5 ''strict'' =
       Inr [VertexObj \<lparr>w_item = 4, w_kind = ''book'', w_neighbours = [(10, 5)]\<rparr>,
            VertexObj \<lparr>w_item = 2, w_kind = ''book'', w_neighbours = [(10, 5)]\<rparr>,
            VertexObj \<lparr>w_item = 1, w_kind = ''book'', w_neighbours = [(10, 5)]\<rparr>]"
proof -
  have 1: "recommend_books shelf_graph 4 1 = Inr [Title 4, Title 2]"
    by code_simp
  have 2: "recommend_books shelf_graph 4 5 =
       Inr [VertexObj \<lparr>item = 4, kind = ''book'', neighbours = {10}\<rparr>,
            VertexObj \<lparr>item = 2, kind = ''book'', neighbours = {10}\<rparr>,
            VertexObj \<lparr>item = 1, kind = ''book'', neighbours = {10}\<rparr>]"
    by code_simp
  have 3: "w_recommend_books w_shelf_graph 4 1 ''unweighted'' = Inr [Title 4, Title 2]"
    by code_simp
  have 4: "w_recommend_books w_shelf_graph 4 1 ''strict'' = Inr [Title 4, Title 2]"
    by code_simp
  have 5: "w_recommend_books w_shelf_graph 4 5 ''strict'' =
       Inr [VertexObj \<lparr>w_item = 4, w_kind = ''book'', w_neighbours = [(10, 5)]\<rparr>,
            VertexObj \<lparr>w_item = 2, w_kind = ''book'', w_neighbours = [(10, 5)]\<rparr>,
            VertexObj \<lparr>w_item = 1, w_kind = ''book'', w_neighbours = [(10, 5)]\<rparr>]"
    by code_simp
  from 1 2 3 4 5 show ?thesis by blast
qed

text \<open>
  Claim C2 at a concrete input. Book 3 is a book vertex of degree 1, so its similarity
  to itself is 1 and it is a candidate like every other book; nothing removes it. It is
  the only book with a non-zero similarity to book 3, and it is what is returned.
\<close>

theorem recommend_books_query_evaluation:
  "similarity_score \<lparr>item = 3::nat, kind = ''book'', neighbours = {11}\<rparr>
       \<lparr>item = 3, kind = ''book'', neighbours = {11}\<rparr> = 1
   \<and> recommend_books shelf_graph 3 1 = Inr [Title 3]
   \<and> w_recommend_books w_shelf_graph 3 1 ''unweighted'' = Inr [Title 3]
   \<and> w_recommend_books w_shelf_graph 3 1 ''strict'' = Inr [Title 3]"
proof -
  have 1: "similarity_score \<lparr>item = 3::nat, kind = ''book'', neighbours = {11}\<rparr>
       \<lparr>item = 3, kind = ''book'', neighbours = {11}\<rparr> = 1"
    by (simp add: similarity_score_def degree_def)
  have 2: "recommend_books shelf_graph 3 1 = Inr [Title 3]"
    by code_simp
  have 3: "w_recommend_books w_shelf_graph 3 1 ''unweighted'' = Inr [Title 3]"
    by code_simp
  have 4: "w_recommend_books w_shelf_graph 3 1 ''strict'' = Inr [Title 3]"
    by code_simp
  from 1 2 3 4 show ?thesis by blast
qed

section \<open>The merges of the clustering loops\<close>

lemma collect_defined:
  assumes "\<forall>x\<in>set xs. \<exists>y. f x = Inr y \<and> P y"
  shows "\<exists>ys. collect f xs = Inr ys \<and> length ys = length xs \<and> (\<forall>y\<in>set ys. P y)"
  using assms
proof (induction xs)
  case Nil
  show ?case by simp
next
  case (Cons x xs)
  then obtain y ys where "f x = Inr y" "P y" "collect f xs = Inr ys" "length ys = length xs"
      "\<forall>y\<in>set ys. P y"
    by auto
  then show ?case by simp
qed

lemma weights_exceed_lookup:
  assumes "weights_exceed g lo" and "map_of g x = Some v" and "map_of (w_neighbours v) y = Some w"
  shows "lo < w"
proof -
  from assms(2) have "(x, v) \<in> set g" by (rule map_of_SomeD)
  moreover from assms(3) have "(y, w) \<in> set (w_neighbours v)" by (rule map_of_SomeD)
  ultimately show ?thesis using assms(1) by (auto simp: weights_exceed_def list_all_iff)
qed

lemma get_weight_defined:
  assumes "weights_exceed g (- 1)" and "x \<in> fst ` set g" and "y \<in> fst ` set g"
  shows "\<exists>w. get_weight g x y = Inr w \<and> - 1 < w"
proof -
  from assms(2) obtain v1 where v1: "map_of g x = Some v1" using map_of_in_keys by fastforce
  from assms(3) obtain v2 where v2: "map_of g y = Some v2" using map_of_in_keys by fastforce
  show ?thesis
  proof (cases "map_of (w_neighbours v1) y")
    case None
    with v1 v2 show ?thesis by (simp add: get_weight_def)
  next
    case (Some w)
    with weights_exceed_lookup[OF assms(1) v1 Some] v1 v2 show ?thesis
      by (simp add: get_weight_def)
  qed
qed

lemma sum_list_above:
  fixes ws :: "rat list"
  assumes "\<forall>w\<in>set ws. - 1 < w" and "ws \<noteq> []"
  shows "- of_nat (length ws) < sum_list ws"
  using assms
proof (induction ws)
  case Nil
  then show ?case by simp
next
  case (Cons w ws)
  show ?case
  proof (cases "ws = []")
    case True
    with Cons.prems show ?thesis by simp
  next
    case False
    with Cons have "- of_nat (length ws) < sum_list ws" by simp
    moreover from Cons.prems have "- 1 < w" by simp
    ultimately show ?thesis by simp
  qed
qed

lemma cross_cluster_weight_defined:
  assumes it: "enumerates iter" and w: "weights_exceed g (- 1)"
    and c1: "finite c1" "c1 \<noteq> {}" "c1 \<subseteq> fst ` set g"
    and c2: "finite c2" "c2 \<noteq> {}" "c2 \<subseteq> fst ` set g"
  shows "\<exists>s. cross_cluster_weight iter g c1 c2 = Inr s \<and> - 1 < s"
proof -
  from it c1(1) c2(1) have e: "set (iter c1) = c1" "distinct (iter c1)"
      "set (iter c2) = c2" "distinct (iter c2)"
    by (simp_all add: enumerates_def)
  let ?ps = "List.product (iter c1) (iter c2)"
  have gw: "\<exists>w. get_weight g x y = Inr w \<and> - 1 < w" if "x \<in> c1" "y \<in> c2" for x y
    using that c1(3) c2(3) get_weight_defined[OF w, of x y] by blast
  have "\<forall>p\<in>set ?ps. \<exists>y. (\<lambda>(x, y). get_weight g x y) p = Inr y \<and> - 1 < y"
    using gw e by auto
  from collect_defined[OF this] obtain ws where
    ws: "collect (\<lambda>(x, y). get_weight g x y) ?ps = Inr ws" "length ws = length ?ps"
      "\<forall>y\<in>set ws. - 1 < y"
    by blast
  from e have len: "length ?ps = card c1 * card c2"
    by (simp add: distinct_card[symmetric])
  from c1 c2 have pos: "0 < card c1 * card c2" by (simp add: card_gt_0_iff)
  with ws(2) len have ne: "ws \<noteq> []" by auto
  from ws(2) len have lw: "length ws = card c1 * card c2" by simp
  have "- of_nat (card c1 * card c2) < sum_list ws"
    using sum_list_above[OF ws(3) ne] unfolding lw .
  with pos have "- 1 < sum_list ws / of_nat (card c1 * card c2)"
    by (simp add: pos_less_divide_eq)
  with ws(1) pos show ?thesis by (simp add: cross_cluster_weight_def)
qed

lemma for_loop_invariant:
  assumes step: "\<And>x st. x \<in> set xs \<Longrightarrow> I st \<Longrightarrow>
      \<exists>st'. body x st = Inr st' \<and> I st' \<and> (A x \<or> F st \<longrightarrow> F st')"
    and init: "I st"
  shows "\<exists>st'. for_loop body xs st = Inr st' \<and> I st' \<and> ((\<exists>x\<in>set xs. A x) \<or> F st \<longrightarrow> F st')"
  using assms
proof (induction xs arbitrary: st)
  case Nil
  then show ?case by simp
next
  case (Cons x xs)
  from Cons.prems(1)[of x st] Cons.prems(2) obtain st1 where
    s1: "body x st = Inr st1" "I st1" "A x \<or> F st \<longrightarrow> F st1"
    by auto
  have "\<exists>st'. for_loop body xs st1 = Inr st' \<and> I st' \<and> ((\<exists>x\<in>set xs. A x) \<or> F st1 \<longrightarrow> F st')"
    by (rule Cons.IH) (use Cons.prems(1) s1(2) in auto)
  then obtain st' where "for_loop body xs st1 = Inr st'" "I st'"
      "(\<exists>x\<in>set xs. A x) \<or> F st1 \<longrightarrow> F st'"
    by blast
  with s1 show ?case by auto
qed

lemma index_pairs_bounds: "p \<in> set (index_pairs n) \<Longrightarrow> fst p < snd p \<and> snd p < n"
  by (auto simp: index_pairs_def)

lemma index_pairs_nonempty: "2 \<le> n \<Longrightarrow> (0, 1) \<in> set (index_pairs n)"
  by (auto simp: index_pairs_def intro!: bexI[where x = 0])

lemma merge_into_clusters:
  assumes "clusters_of g cs" and "i1 < length cs" and "i2 < length cs" and "i1 \<noteq> i2"
  shows "length (merge_into cs i1 i2) = length cs - 1 \<and> clusters_of g (merge_into cs i1 i2)"
proof -
  let ?u = "cs[i2 := cs ! i2 \<union> cs ! i1]"
  from assms have "?u ! i1 = cs ! i1" by simp
  with assms(2) have mem: "cs ! i1 \<in> set ?u" by (metis length_list_update nth_mem)
  then have len: "length (merge_into cs i1 i2) = length cs - 1"
    by (simp add: merge_into_def length_remove1)
  from assms(1,2,3) have "finite (cs ! i2 \<union> cs ! i1) \<and> cs ! i2 \<union> cs ! i1 \<noteq> {}
      \<and> cs ! i2 \<union> cs ! i1 \<subseteq> fst ` set g"
    unfolding clusters_of_def by (meson Un_empty finite_UnI le_sup_iff nth_mem)
  moreover have "set (merge_into cs i1 i2) \<subseteq> insert (cs ! i2 \<union> cs ! i1) (set cs)"
    unfolding merge_into_def
    using set_remove1_subset[of "cs ! i1" ?u] set_update_subset_insert[of cs i2] by blast
  ultimately have "clusters_of g (merge_into cs i1 i2)"
    using assms(1) unfolding clusters_of_def by blast
  with len show ?thesis by simp
qed

lemma book_only_weights: "book_only g \<Longrightarrow> weights_exceed g (- 1)"
  unfolding book_only_def weights_exceed_def list_all_iff by fastforce

lemma disjoint_from_union:
  assumes dj: "\<forall>c \<in> S. \<forall>d \<in> S. c \<noteq> d \<longrightarrow> c \<inter> d = {}"
    and a: "a \<in> S" and b: "b \<in> S" and e: "e \<in> S" and ea: "e \<noteq> a" and eb: "e \<noteq> b"
  shows "(a \<union> b) \<inter> e = {}"
proof -
  from dj a e ea have "a \<inter> e = {}" by (metis (no_types))
  moreover from dj b e eb have "b \<inter> e = {}" by (metis (no_types))
  ultimately show ?thesis by (simp add: Int_Un_distrib2)
qed

lemma Union_merge:
  assumes "a \<in> S" and "b \<in> S"
  shows "\<Union> (insert (a \<union> b) (S - {a, b})) = \<Union> S"
proof -
  from assms have "S = insert a (insert b (S - {a, b}))" by auto
  then have "\<Union> S = \<Union> (insert a (insert b (S - {a, b})))" by simp
  also have "\<dots> = \<Union> (insert (a \<union> b) (S - {a, b}))" by (simp add: Un_assoc)
  finally show ?thesis by simp
qed

lemma insert_Diff_other: "x \<noteq> a \<Longrightarrow> insert x S - {a} = insert x (S - {a})"
  by auto

lemma Diff_two: "S - {b} - {a} = S - {a, b}"
  by auto

lemma merge_into_set:
  assumes p: "partition_of V cs" and i1: "i1 < length cs" and i2: "i2 < length cs" and ne: "i1 \<noteq> i2"
  shows "cs ! i1 \<noteq> cs ! i2" and "cs ! i1 \<inter> cs ! i2 = {}"
    and "cs ! i2 \<union> cs ! i1 \<noteq> cs ! i1"
    and "distinct (merge_into cs i1 i2)"
    and "set (merge_into cs i1 i2) = insert (cs ! i1 \<union> cs ! i2) (set cs - {cs ! i1, cs ! i2})"
proof -
  let ?a = "cs ! i1" and ?b = "cs ! i2"
  from p have d: "distinct cs" and ne0: "{} \<notin> set cs"
    and dj: "\<forall>c \<in> set cs. \<forall>d \<in> set cs. c \<noteq> d \<longrightarrow> c \<inter> d = {}"
    by (simp_all add: partition_of_def)
  from i1 i2 have m: "?a \<in> set cs" "?b \<in> set cs" by simp_all
  from d i1 i2 ne show ab: "?a \<noteq> ?b" by (simp add: nth_eq_iff_index_eq)
  with dj[rule_format, OF m] show disj: "?a \<inter> ?b = {}" by simp
  from m ne0 have nz: "?a \<noteq> {}" "?b \<noteq> {}" by metis+
  show na: "?b \<union> ?a \<noteq> ?a"
  proof
    assume "?b \<union> ?a = ?a"
    then have "?b \<subseteq> ?a" by (simp add: Un_absorb1 subset_Un_eq)
    with disj have "?b = {}" by (simp add: Int_absorb1)
    with nz show False by simp
  qed
  have u: "?b \<union> ?a \<notin> set cs"
  proof
    assume in_cs: "?b \<union> ?a \<in> set cs"
    from dj[rule_format, OF in_cs m(1) na] have "(?b \<union> ?a) \<inter> ?a = {}" .
    then have "?a = {}" by (simp add: Int_absorb1)
    with nz show False by simp
  qed
  let ?u = "cs[i2 := ?b \<union> ?a]"
  from d u have du: "distinct ?u" by (simp add: distinct_list_update)
  then show "distinct (merge_into cs i1 i2)" by (simp add: merge_into_def)
  from d i2 have su: "set ?u = insert (?b \<union> ?a) (set cs - {?b})"
    by (rule set_update_distinct)
  from du have "set (merge_into cs i1 i2) = set ?u - {?a}"
    by (simp add: merge_into_def set_remove1_eq)
  also have "\<dots> = insert (?b \<union> ?a) (set cs - {?b}) - {?a}" by (simp only: su)
  also have "\<dots> = insert (?b \<union> ?a) (set cs - {?b} - {?a})" by (rule insert_Diff_other[OF na])
  also have "\<dots> = insert (?b \<union> ?a) (set cs - {?a, ?b})" by (simp only: Diff_two)
  also have "\<dots> = insert (?a \<union> ?b) (set cs - {?a, ?b})" by (simp only: Un_commute)
  finally show "set (merge_into cs i1 i2) = insert (?a \<union> ?b) (set cs - {?a, ?b})" .
qed

lemma add_mset_Diff_other: "x \<noteq> a \<Longrightarrow> add_mset x M - {#a#} = add_mset x (M - {#a#})"
  by simp

lemma mset_Diff_two: "M - {#b#} - {#a#} = M - {#a, b#}"
  by simp

lemma merge_into_merged:
  assumes p: "partition_of V cs" and i1: "i1 < length cs" and i2: "i2 < length cs" and ne: "i1 \<noteq> i2"
  shows "merged cs (merge_into cs i1 i2)"
proof -
  let ?a = "cs ! i1" and ?b = "cs ! i2"
  note s = merge_into_set[OF p i1 i2 ne]
  from i1 i2 have m: "?a \<in> set cs" "?b \<in> set cs" by simp_all
  have "mset (merge_into cs i1 i2) = mset (cs[i2 := ?b \<union> ?a]) - {#?a#}"
    by (simp only: merge_into_def mset_remove1)
  also have "\<dots> = add_mset (?b \<union> ?a) (mset cs - {#?b#}) - {#?a#}"
    by (simp only: mset_update[OF i2])
  also have "\<dots> = add_mset (?b \<union> ?a) (mset cs - {#?b#} - {#?a#})"
    by (rule add_mset_Diff_other[OF s(3)])
  also have "\<dots> = add_mset (?b \<union> ?a) (mset cs - {#?a, ?b#})"
    by (simp only: mset_Diff_two)
  also have "\<dots> = add_mset (?a \<union> ?b) (mset cs - {#?a, ?b#})"
    by (simp only: Un_commute)
  finally have e: "mset (merge_into cs i1 i2) = add_mset (?a \<union> ?b) (mset cs - {#?a, ?b#})" .
  show ?thesis
    unfolding merged_def
    by (rule exI[where x = ?a], rule exI[where x = ?b]) (intro conjI m s(1) e)
qed

lemma merge_into_partition:
  assumes p: "partition_of V cs" and i1: "i1 < length cs" and i2: "i2 < length cs" and ne: "i1 \<noteq> i2"
  shows "partition_of V (merge_into cs i1 i2)"
proof -
  let ?a = "cs ! i1" and ?b = "cs ! i2"
  let ?S = "insert (?a \<union> ?b) (set cs - {?a, ?b})"
  note s = merge_into_set[OF p i1 i2 ne]
  from p have un: "\<Union> (set cs) = V" and ne0: "{} \<notin> set cs"
    and dj: "\<forall>c \<in> set cs. \<forall>d \<in> set cs. c \<noteq> d \<longrightarrow> c \<inter> d = {}"
    by (simp_all add: partition_of_def)
  from i1 i2 have m: "?a \<in> set cs" "?b \<in> set cs" by simp_all
  from m ne0 have nz: "?a \<noteq> {}" by metis
  have 1: "\<Union> ?S = V"
    using Union_merge[OF m] un by (rule trans)
  have 2: "{} \<notin> ?S"
  proof
    assume "{} \<in> ?S"
    then have "{} = ?a \<union> ?b \<or> {} \<in> set cs - {?a, ?b}" by (rule insertE) simp_all
    then show False
    proof
      assume "{} = ?a \<union> ?b"
      then have "?a = {}" by simp
      with nz show False by simp
    next
      assume "{} \<in> set cs - {?a, ?b}"
      then have "{} \<in> set cs" by (rule DiffD1)
      with ne0 show False by simp
    qed
  qed
  have r: "(?a \<union> ?b) \<inter> e = {}" if "e \<in> set cs - {?a, ?b}" for e
  proof -
    from that have "e \<in> set cs" "e \<noteq> ?a" "e \<noteq> ?b" by simp_all
    with disjoint_from_union[OF dj m] show ?thesis by (metis (no_types))
  qed
  have 3: "c \<inter> d = {}" if c: "c \<in> ?S" and d: "d \<in> ?S" and cd: "c \<noteq> d" for c d
  proof -
    from c have c': "c = ?a \<union> ?b \<or> c \<in> set cs - {?a, ?b}" by (rule insertE) simp_all
    from d have d': "d = ?a \<union> ?b \<or> d \<in> set cs - {?a, ?b}" by (rule insertE) simp_all
    show ?thesis
    proof (cases "c = ?a \<union> ?b")
      case True
      with cd d' have "d \<in> set cs - {?a, ?b}" by (metis (no_types))
      from r[OF this] True show ?thesis by simp
    next
      case False
      with c' have cs: "c \<in> set cs - {?a, ?b}" by simp
      show ?thesis
      proof (cases "d = ?a \<union> ?b")
        case True
        from r[OF cs] True show ?thesis by (simp add: Int_commute)
      next
        case False
        with d' have "d \<in> set cs - {?a, ?b}" by simp
        then have "d \<in> set cs" by (rule DiffD1)
        moreover from cs have "c \<in> set cs" by (rule DiffD1)
        ultimately show ?thesis using dj cd by (metis (no_types))
      qed
    qed
  qed
  show ?thesis
    unfolding partition_of_def s(5)
    by (intro conjI ballI impI s(4) 1 2 3)
qed

lemma greedy_merge_step:
  assumes it: "enumerates iter" and w: "weights_exceed g (- 1)"
    and cs: "clusters_of g cs" and two: "2 \<le> length cs"
  shows "\<exists>i1 i2. i1 < length cs \<and> i2 < length cs \<and> i1 \<noteq> i2
           \<and> greedy_merge iter g cs = Inr (merge_into cs i1 i2)"
proof -
  let ?I = "\<lambda>st :: rat \<times> (nat \<times> nat) option. - 1 \<le> fst st \<and> (snd st = None \<longrightarrow> fst st = - 1)
      \<and> (\<forall>p. snd st = Some p \<longrightarrow> fst p < snd p \<and> snd p < length cs)"
  let ?F = "\<lambda>st :: rat \<times> (nat \<times> nat) option. snd st \<noteq> None"
  have step: "\<exists>st'. greedy_body iter g cs p st = Inr st' \<and> ?I st' \<and> (True \<or> ?F st \<longrightarrow> ?F st')"
    if p: "p \<in> set (index_pairs (length cs))" and st: "?I st" for p st
  proof -
    from index_pairs_bounds[OF p] have b: "fst p < snd p" "snd p < length cs" by simp_all
    then have m: "cs ! fst p \<in> set cs" "cs ! snd p \<in> set cs" by simp_all
    with cs have "finite (cs ! fst p)" "cs ! fst p \<noteq> {}" "cs ! fst p \<subseteq> fst ` set g"
      "finite (cs ! snd p)" "cs ! snd p \<noteq> {}" "cs ! snd p \<subseteq> fst ` set g"
      unfolding clusters_of_def by blast+
    from cross_cluster_weight_defined[OF it w this] obtain s where
      s: "cross_cluster_weight iter g (cs ! fst p) (cs ! snd p) = Inr s" "- 1 < s" by blast
    show ?thesis
    proof (cases "fst st < s")
      case True
      with s b show ?thesis by (auto simp: greedy_body_def)
    next
      case False
      with s have "- 1 < fst st" by simp
      with st have "snd st \<noteq> None" by auto
      with False s st show ?thesis by (simp add: greedy_body_def)
    qed
  qed
  have init: "?I (- 1, None)" by simp
  have "\<exists>st'. for_loop (greedy_body iter g cs) (index_pairs (length cs)) (- 1, None) = Inr st'
      \<and> ?I st' \<and> ((\<exists>x\<in>set (index_pairs (length cs)). True) \<or> ?F (- 1, None) \<longrightarrow> ?F st')"
    by (rule for_loop_invariant[where I = ?I and A = "\<lambda>_. True" and F = ?F];
        (rule step | rule init); assumption)
  then obtain st' where a: "for_loop (greedy_body iter g cs) (index_pairs (length cs)) (- 1, None) = Inr st'
      \<and> ?I st' \<and> ((\<exists>x\<in>set (index_pairs (length cs)). True) \<or> ?F (- 1, None) \<longrightarrow> ?F st')" ..
  have st': "for_loop (greedy_body iter g cs) (index_pairs (length cs)) (- 1, None) = Inr st'"
    "?I st'" "(\<exists>x\<in>set (index_pairs (length cs)). True) \<or> ?F (- 1, None) \<longrightarrow> ?F st'"
    by (rule conjunct1[OF a], rule conjunct1[OF conjunct2[OF a]], rule conjunct2[OF conjunct2[OF a]])
  from index_pairs_nonempty[OF two] st'(3) have "snd st' \<noteq> None" by blast
  then obtain best i1 i2 where e: "st' = (best, Some (i1, i2))" by (cases st') auto
  with st'(2) have b: "i1 < i2" "i2 < length cs" by auto
  from st'(1) e have "greedy_merge iter g cs = Inr (merge_into cs i1 i2)"
    by (simp add: greedy_merge_def)
  with b show ?thesis by (intro exI[where x = i1] exI[where x = i2]) simp
qed

lemma random_merge_step:
  assumes it: "enumerates iter" and w: "weights_exceed g (- 1)"
    and cs: "clusters_of g cs" and two: "2 \<le> length cs"
  shows "\<exists>i1 i2. i1 < length cs \<and> i2 < length cs \<and> i1 \<noteq> i2
           \<and> random_merge iter g r cs = Inr (merge_into cs i1 i2)"
proof -
  let ?i = "r mod length cs"
  from two have i: "?i < length cs" by (intro mod_less_divisor) linarith
  let ?I = "\<lambda>st :: rat \<times> nat option. - 1 \<le> fst st \<and> (snd st = None \<longrightarrow> fst st = - 1)
      \<and> (\<forall>j. snd st = Some j \<longrightarrow> j \<noteq> ?i \<and> j < length cs)"
  let ?F = "\<lambda>st :: rat \<times> nat option. snd st \<noteq> None"
  let ?A = "\<lambda>j. j \<noteq> ?i"
  have step: "\<exists>st'. random_body iter g cs ?i j st = Inr st' \<and> ?I st' \<and> (?A j \<or> ?F st \<longrightarrow> ?F st')"
    if j: "j \<in> set [0..<length cs]" and st: "?I st" for j st
  proof (cases "j = ?i")
    case True
    with st show ?thesis by (simp add: random_body_def)
  next
    case False
    from j have jl: "j < length cs" by simp
    with i have m: "cs ! ?i \<in> set cs" "cs ! j \<in> set cs" by simp_all
    with cs have "finite (cs ! ?i)" "cs ! ?i \<noteq> {}" "cs ! ?i \<subseteq> fst ` set g"
      "finite (cs ! j)" "cs ! j \<noteq> {}" "cs ! j \<subseteq> fst ` set g"
      unfolding clusters_of_def by blast+
    from cross_cluster_weight_defined[OF it w this] obtain s where
      s: "cross_cluster_weight iter g (cs ! ?i) (cs ! j) = Inr s" "- 1 < s" by blast
    show ?thesis
    proof (cases "fst st < s")
      case True
      with s jl False show ?thesis by (simp add: random_body_def)
    next
      case lt: False
      with s have "- 1 < fst st" by simp
      with st have "snd st \<noteq> None" by auto
      with lt s st False show ?thesis by (simp add: random_body_def)
    qed
  qed
  have init: "?I (- 1, None)" by simp
  have "\<exists>st'. for_loop (random_body iter g cs ?i) [0..<length cs] (- 1, None) = Inr st'
      \<and> ?I st' \<and> ((\<exists>j\<in>set [0..<length cs]. ?A j) \<or> ?F (- 1, None) \<longrightarrow> ?F st')"
    by (rule for_loop_invariant[where I = ?I and A = ?A and F = ?F];
        (rule step | rule init); assumption)
  then obtain st' where a: "for_loop (random_body iter g cs ?i) [0..<length cs] (- 1, None) = Inr st'
      \<and> ?I st' \<and> ((\<exists>j\<in>set [0..<length cs]. ?A j) \<or> ?F (- 1, None) \<longrightarrow> ?F st')" ..
  have st': "for_loop (random_body iter g cs ?i) [0..<length cs] (- 1, None) = Inr st'"
    "?I st'" "(\<exists>j\<in>set [0..<length cs]. ?A j) \<or> ?F (- 1, None) \<longrightarrow> ?F st'"
    by (rule conjunct1[OF a], rule conjunct1[OF conjunct2[OF a]], rule conjunct2[OF conjunct2[OF a]])
  from two i have "\<exists>j\<in>set [0..<length cs]. j \<noteq> ?i"
  proof (cases "?i = 0")
    case True
    with two show ?thesis by (intro bexI[where x = 1]) auto
  next
    case False
    with two show ?thesis by (intro bexI[where x = 0]) auto
  qed
  with st'(3) have "snd st' \<noteq> None" by blast
  then obtain best j where e: "st' = (best, Some j)" by (cases st') auto
  with st'(2) have b: "j \<noteq> ?i" "j < length cs" by auto
  from two have "cs \<noteq> []" by (cases cs) simp_all
  with st'(1) e have "random_merge iter g r cs = Inr (merge_into cs ?i j)"
    by (simp add: random_merge_def Let_def)
  with i b show ?thesis by (intro exI[where x = ?i] exI[where x = j]) simp
qed

lemma merge_loop_snoc:
  "merge_loop step t (Suc m) cs =
     (case merge_loop step t m cs of Inl e \<Rightarrow> Inl e | Inr cs' \<Rightarrow> step (t + m) cs')"
proof (induction m arbitrary: t cs)
  case 0
  show ?case by (simp split: sum.splits)
next
  case (Suc m)
  show ?case
  proof (cases "step t cs")
    case (Inl e)
    then show ?thesis by simp
  next
    case (Inr cs1)
    have "merge_loop step t (Suc (Suc m)) cs = merge_loop step (Suc t) (Suc m) cs1"
      using Inr by simp
    also have "\<dots> = (case merge_loop step (Suc t) m cs1 of
        Inl e \<Rightarrow> Inl e | Inr cs' \<Rightarrow> step (Suc t + m) cs')"
      by (rule Suc.IH)
    also have "\<dots> = (case merge_loop step t (Suc m) cs of
        Inl e \<Rightarrow> Inl e | Inr cs' \<Rightarrow> step (t + Suc m) cs')"
      using Inr by (simp cong: sum.case_cong)
    finally show ?thesis .
  qed
qed

lemma merge_loop_count:
  assumes step: "\<And>t cs. clusters_of g cs \<Longrightarrow> partition_of V cs \<Longrightarrow> 2 \<le> length cs \<Longrightarrow>
      \<exists>i1 i2. i1 < length cs \<and> i2 < length cs \<and> i1 \<noteq> i2 \<and> step t cs = Inr (merge_into cs i1 i2)"
  shows "clusters_of g cs \<Longrightarrow> partition_of V cs \<Longrightarrow> m = 0 \<or> m < length cs \<Longrightarrow>
      \<exists>cs'. merge_loop step t m cs = Inr cs' \<and> length cs' = length cs - m
           \<and> clusters_of g cs' \<and> partition_of V cs'"
proof (induction m arbitrary: t cs)
  case 0
  then show ?case by simp
next
  case (Suc m)
  then have "2 \<le> length cs" by simp
  from step[OF Suc.prems(1,2) this, of t] obtain i1 i2 where
    i: "i1 < length cs" "i2 < length cs" "i1 \<noteq> i2" "step t cs = Inr (merge_into cs i1 i2)"
    by blast
  let ?cs1 = "merge_into cs i1 i2"
  from merge_into_clusters[OF Suc.prems(1) i(1,2,3)]
  have c1: "length ?cs1 = length cs - 1" "clusters_of g ?cs1" by simp_all
  from merge_into_partition[OF Suc.prems(2) i(1,2,3)] have p1: "partition_of V ?cs1" .
  from Suc.prems(3) c1(1) have "m = 0 \<or> m < length ?cs1" by auto
  from Suc.IH[OF c1(2) p1 this, of "Suc t"] obtain cs' where
    "merge_loop step (Suc t) m ?cs1 = Inr cs'" "length cs' = length ?cs1 - m"
    "clusters_of g cs'" "partition_of V cs'"
    by blast
  with c1 i(4) show ?case by simp
qed

lemma merge_loop_next:
  assumes step: "\<And>t cs. clusters_of g cs \<Longrightarrow> partition_of V cs \<Longrightarrow> 2 \<le> length cs \<Longrightarrow>
      \<exists>i1 i2. i1 < length cs \<and> i2 < length cs \<and> i1 \<noteq> i2 \<and> step t cs = Inr (merge_into cs i1 i2)"
    and c: "clusters_of g cs" and p: "partition_of V cs" and m: "Suc m < length cs"
  shows "\<exists>cs1 cs2. merge_loop step t m cs = Inr cs1 \<and> merge_loop step t (Suc m) cs = Inr cs2
           \<and> merged cs1 cs2"
proof -
  from m have "m = 0 \<or> m < length cs" by simp
  from merge_loop_count[where step = step, OF step c p this, of t] obtain cs1 where
    cs1: "merge_loop step t m cs = Inr cs1" "length cs1 = length cs - m"
      "clusters_of g cs1" "partition_of V cs1"
    by blast
  from cs1(2) m have "2 \<le> length cs1" by simp
  from step[OF cs1(3,4) this, of "t + m"] obtain i1 i2 where
    i: "i1 < length cs1" "i2 < length cs1" "i1 \<noteq> i2" "step (t + m) cs1 = Inr (merge_into cs1 i1 i2)"
    by blast
  have "merge_loop step t (Suc m) cs = Inr (merge_into cs1 i1 i2)"
    by (simp only: merge_loop_snoc cs1(1) sum.case i(4))
  moreover from merge_into_merged[OF cs1(4) i(1,2,3)] have "merged cs1 (merge_into cs1 i1 i2)" .
  ultimately show ?thesis using cs1(1) by blast
qed

lemma singleton_clusters_props:
  assumes "enumerates iter"
  shows "length (singleton_clusters iter g) = card (w_get_all_vertices g [])"
    and "clusters_of g (singleton_clusters iter g)"
    and "partition_of (w_get_all_vertices g []) (singleton_clusters iter g)"
proof -
  let ?V = "w_get_all_vertices g []"
  have f: "finite ?V" by (simp add: w_get_all_vertices_def)
  with assms have e: "set (iter ?V) = ?V" "distinct (iter ?V)"
    by (simp_all add: enumerates_def)
  from e(2) have "length (iter ?V) = card (set (iter ?V))"
    by (simp add: distinct_card)
  with e(1) show "length (singleton_clusters iter g) = card ?V"
    by (simp add: singleton_clusters_def)
  from e(1) show "clusters_of g (singleton_clusters iter g)"
    by (auto simp: clusters_of_def singleton_clusters_def w_get_all_vertices_def)
  from e(2) have "distinct (singleton_clusters iter g)"
    by (simp add: singleton_clusters_def distinct_map inj_on_def)
  moreover from e(1) have "\<Union> (set (singleton_clusters iter g)) = ?V"
    by (auto simp: singleton_clusters_def)
  ultimately show "partition_of ?V (singleton_clusters iter g)"
    unfolding partition_of_def by (auto simp: singleton_clusters_def)
qed

subsection \<open>\<open>create_book_graph\<close> returns a book-only graph\<close>

text \<open>
  For every review graph built by the construction calls, every threshold and either
  score type, \<open>create_book_graph\<close> returns a graph whose vertices are the books of the
  review graph and whose weights are similarity scores, none of them negative.
\<close>

lemma similarity_defined:
  assumes c: "w_consistent rg" and x: "x \<in> fst ` set rg" and y: "y \<in> fst ` set rg"
  shows "\<exists>s. w_get_similarity_score rg x y score_type = Inr s \<and> 0 \<le> s"
proof -
  from x obtain vx where vx: "map_of rg x = Some vx" using map_of_in_keys by fastforce
  from y obtain vy where vy: "map_of rg y = Some vy" using map_of_in_keys by fastforce
  from x y have in_all: "x \<in> w_get_all_vertices rg []" "y \<in> w_get_all_vertices rg []"
    by (simp_all add: w_get_all_vertices_def)
  show ?thesis
  proof (cases "score_type = ''unweighted''")
    case True
    have "0 \<le> similarity_score_unweighted vx vy"
      by (simp add: similarity_score_unweighted_def)
    with True vx vy in_all show ?thesis by (simp add: w_get_similarity_score_def)
  next
    case False
    from strict_defined[OF c vx vy] obtain s where
      "similarity_score_strict rg vx vy = Inr s" "0 \<le> s"
      by (cases "w_degree vx = 0 \<or> w_degree vy = 0") simp_all
    with False vx vy in_all show ?thesis by (simp add: w_get_similarity_score_def)
  qed
qed

lemma books_are_keys:
  assumes "w_consistent rg"
  shows "w_get_all_vertices rg ''book'' \<subseteq> fst ` set rg"
proof
  fix x assume "x \<in> w_get_all_vertices rg ''book''"
  then obtain k v where kv: "(k, v) \<in> set rg" "x = w_item v"
    by (auto simp: w_get_all_vertices_def)
  from w_consistent_lookup[OF assms kv(1)] kv(2) have "x = k" by simp
  with kv(1) show "x \<in> fst ` set rg" by (auto intro: rev_image_eqI)
qed

lemma book_only_add_vertex: "book_only g \<Longrightarrow> book_only (w_add_vertex g x ''book'')"
  by (simp add: book_only_def w_add_vertex_def WeightedVertex_init_def)

lemma keys_add_vertex: "fst ` set (w_add_vertex g x k) = insert x (fst ` set g)"
  by (auto simp: w_add_vertex_def)

lemma fold_add_vertex:
  "book_only g \<Longrightarrow>
     book_only (fold (\<lambda>x new_wg. w_add_vertex new_wg x ''book'') xs g)
   \<and> fst ` set (fold (\<lambda>x new_wg. w_add_vertex new_wg x ''book'') xs g) = set xs \<union> fst ` set g"
proof (induction xs arbitrary: g)
  case Nil
  then show ?case by simp
next
  case (Cons x xs)
  from Cons.prems have "book_only (w_add_vertex g x ''book'')" by (rule book_only_add_vertex)
  from Cons.IH[OF this] show ?case by (simp add: keys_add_vertex Un_commute insert_commute)
qed

lemma set_update_entries: "set (AList.update u w al) \<subseteq> insert (u, w) (set al)"
  by (induction al) auto

lemma book_only_neighbours_store:
  assumes b: "book_only g" and w: "0 \<le> w"
  shows "book_only (neighbours_store g a u w)"
  unfolding book_only_def list_all_iff
proof (intro ballI)
  fix e assume e: "e \<in> set (neighbours_store g a u w)"
  obtain k v where kv: "e = (k, v)" by (cases e)
  let ?f = "\<lambda>v. v\<lparr>w_neighbours := AList.update u w (w_neighbours v)\<rparr>"
  from e kv have "(k, v) \<in> set (AList.map_entry a ?f g)" by (simp add: neighbours_store_def)
  from set_map_entry[OF this] consider "(k, v) \<in> set g"
    | v0 where "(a, v0) \<in> set g" "v = ?f v0" by blast
  then have "w_kind v = ''book'' \<and> (\<forall>x\<in>set (w_neighbours v). case x of (u, w) \<Rightarrow> 0 \<le> w)"
  proof cases
    case 1
    with b show ?thesis unfolding book_only_def list_all_iff by fastforce
  next
    case 2
    with b have old: "w_kind v0 = ''book''" "\<forall>x\<in>set (w_neighbours v0). case x of (u, w) \<Rightarrow> 0 \<le> w"
      unfolding book_only_def list_all_iff by fastforce+
    from set_update_entries[of u w "w_neighbours v0"] old(2) w
    have "\<forall>x\<in>set (AList.update u w (w_neighbours v0)). case x of (u, w) \<Rightarrow> 0 \<le> w"
      by auto
    with 2 old(1) show ?thesis by simp
  qed
  with kv show "case e of (k, v) \<Rightarrow> w_kind v = ''book''
      \<and> (\<forall>x\<in>set (w_neighbours v). case x of (u, w) \<Rightarrow> 0 \<le> w)"
    by simp
qed

lemma keys_neighbours_store: "fst ` set (neighbours_store g a u w) = fst ` set g"
  by (simp add: neighbours_store_def dom_map_entry)

lemma add_similarity_edge:
  assumes "book_only g" and "x \<in> fst ` set g" and "y \<in> fst ` set g" and "0 \<le> w"
  shows "\<exists>g'. w_add_edge g x y w = Inr g' \<and> book_only g' \<and> fst ` set g' = fst ` set g"
  using assms
  by (simp add: w_add_edge_def book_only_neighbours_store keys_neighbours_store)

lemma book_edge_body_step:
  assumes c: "w_consistent rg" and B: "B \<subseteq> fst ` set rg"
    and g: "book_only g" "fst ` set g = B" and x: "x \<in> B" and y: "y \<in> B"
  shows "\<exists>g'. book_edge_body rg threshold score_type x y g = Inr g'
           \<and> book_only g' \<and> fst ` set g' = B"
proof -
  from x y B have "x \<in> fst ` set rg" "y \<in> fst ` set rg" by auto
  from similarity_defined[OF c this, of score_type] obtain s where
    s: "w_get_similarity_score rg x y score_type = Inr s" "0 \<le> s" by blast
  from x y g(2) have "x \<in> fst ` set g" "y \<in> fst ` set g" by simp_all
  from add_similarity_edge[OF g(1) this s(2)] obtain g' where
    "w_add_edge g x y s = Inr g'" "book_only g'" "fst ` set g' = fst ` set g" by blast
  with s g show ?thesis by (simp add: book_edge_body_def)
qed

lemma create_book_graph_book_only:
  assumes it: "enumerates iter"
  shows "\<exists>g. create_book_graph iter (w_build ops) threshold score_type = Inr g
           \<and> book_only g
           \<and> w_get_all_vertices g [] = w_get_all_vertices (w_build ops) ''book''"
proof -
  let ?rg = "w_build ops"
  let ?B = "w_get_all_vertices ?rg ''book''"
  let ?J = "\<lambda>g. book_only g \<and> fst ` set g = ?B"
  note c = w_consistent_build[of ops]
  note B = books_are_keys[OF c]
  have fB: "finite ?B" by (simp add: w_get_all_vertices_def)
  with it have e: "set (iter ?B) = ?B" by (simp add: enumerates_def)
  let ?g0 = "add_book_vertices iter ?rg"
  have "book_only (WeightedGraph_init :: 'a wgraph)"
    by (simp add: book_only_def WeightedGraph_init_def)
  from fold_add_vertex[OF this, of "iter ?B"] e have J0: "?J ?g0"
    by (simp add: add_book_vertices_def WeightedGraph_init_def)
  have all: "w_get_all_vertices g [] = ?B" if "?J g" for g
    using that by (simp add: w_get_all_vertices_def)
  have inner: "\<exists>g'. for_loop (book_edge_body ?rg threshold score_type x)
        (iter (w_get_all_vertices g [])) g = Inr g' \<and> ?J g'
      \<and> ((\<exists>y\<in>set (iter (w_get_all_vertices g [])). False) \<or> True \<longrightarrow> True)"
    if x: "x \<in> ?B" and g: "?J g" for x g
  proof (rule for_loop_invariant[where I = ?J and A = "\<lambda>_. False" and F = "\<lambda>_. True"])
    fix y g1 assume y: "y \<in> set (iter (w_get_all_vertices g [])) " and g1: "?J g1"
    from y all[OF g] e have "y \<in> ?B" by simp
    from book_edge_body_step[OF c B _ _ x this, of g1 threshold score_type] g1
    show "\<exists>st'. book_edge_body ?rg threshold score_type x y g1 = Inr st' \<and> ?J st'
        \<and> (False \<or> True \<longrightarrow> True)"
      by simp
  next
    show "?J g" by (rule g)
  qed
  have "\<exists>g'. for_loop (\<lambda>x g. for_loop (book_edge_body ?rg threshold score_type x)
        (iter (w_get_all_vertices g [])) g) (iter (w_get_all_vertices ?g0 [])) ?g0 = Inr g'
      \<and> ?J g' \<and> ((\<exists>x\<in>set (iter (w_get_all_vertices ?g0 [])). False) \<or> True \<longrightarrow> True)"
  proof (rule for_loop_invariant[where I = ?J and A = "\<lambda>_. False" and F = "\<lambda>_. True"])
    fix x g assume x: "x \<in> set (iter (w_get_all_vertices ?g0 []))" and g: "?J g"
    from x all[OF J0] e have "x \<in> ?B" by simp
    from inner[OF this g]
    show "\<exists>st'. for_loop (book_edge_body ?rg threshold score_type x)
        (iter (w_get_all_vertices g [])) g = Inr st' \<and> ?J st' \<and> (False \<or> True \<longrightarrow> True)"
      by blast
  next
    show "?J ?g0" by (rule J0)
  qed
  then obtain g' where "create_book_graph iter ?rg threshold score_type = Inr g'" "?J g'"
    by (auto simp: create_book_graph_def Let_def)
  with all[of g'] show ?thesis by auto
qed

lemma shelf_book_graph_eq: "shelf_book_graph =
  [(1, \<lparr>w_item = 1, w_kind = ''book'', w_neighbours = [(2, 1), (4, 1)]\<rparr>),
   (2, \<lparr>w_item = 2, w_kind = ''book'', w_neighbours = [(1, 1), (4, 1)]\<rparr>),
   (3, \<lparr>w_item = 3, w_kind = ''book'', w_neighbours = []\<rparr>),
   (4, \<lparr>w_item = 4, w_kind = ''book'', w_neighbours = [(1, 1), (2, 1)]\<rparr>)]"
  by (simp add: shelf_book_graph_def shelf_book_calls_def w_build_def w_add_edge_def
      w_add_vertex_def WeightedGraph_init_def WeightedVertex_init_def neighbours_store_def)

lemma create_book_graph_shelf:
  "create_book_graph sorted_list_of_set w_shelf_graph (1 / 20) ''unweighted'' = Inr shelf_book_graph"
  by code_simp

subsection \<open>The clustering functions on a book-only graph\<close>

text \<open>
  Claim C8. Let \<open>g\<close> be a book-only weighted graph with \<open>n\<close> vertices and
  \<open>1 \<le> num_clusters\<close>. Both functions start from the \<open>n\<close> singleton clusters of the
  vertices and run the loop body \<open>max (n - num_clusters) 0\<close> times. Every iteration
  succeeds; after \<open>m\<close> of them there are \<open>n - m\<close> clusters, which still partition the
  vertices, and iteration \<open>m + 1\<close> is a merge: it takes two different clusters out of
  the list and puts their union in, so the count drops by exactly one. When
  \<open>num_clusters \<ge> n\<close> the singleton clusters are returned unchanged. This holds for
  every iteration order of sets and every sequence of random choices.
\<close>

theorem find_clusters_merge_count:
  assumes it: "enumerates iter" and bo: "book_only g" and k: "1 \<le> num_clusters"
  shows "length (singleton_clusters iter g) = card (w_get_all_vertices g [])
    \<and> list_all (\<lambda>c. \<exists>book. c = {book}) (singleton_clusters iter g)
    \<and> partition_of (w_get_all_vertices g []) (singleton_clusters iter g)
    \<and> find_clusters_greedy iter g num_clusters =
        merge_loop (\<lambda>t. greedy_merge iter g) 0
          (nat (int (card (w_get_all_vertices g [])) - num_clusters)) (singleton_clusters iter g)
    \<and> find_clusters_random rnd iter g num_clusters =
        merge_loop (\<lambda>t. random_merge iter g (rnd t)) 0
          (nat (int (card (w_get_all_vertices g [])) - num_clusters)) (singleton_clusters iter g)
    \<and> (\<forall>m \<le> nat (int (card (w_get_all_vertices g [])) - num_clusters).
         (\<exists>cs. merge_loop (\<lambda>t. greedy_merge iter g) 0 m (singleton_clusters iter g) = Inr cs
              \<and> length cs = card (w_get_all_vertices g []) - m
              \<and> partition_of (w_get_all_vertices g []) cs)
       \<and> (\<exists>cs. merge_loop (\<lambda>t. random_merge iter g (rnd t)) 0 m (singleton_clusters iter g) = Inr cs
              \<and> length cs = card (w_get_all_vertices g []) - m
              \<and> partition_of (w_get_all_vertices g []) cs))
    \<and> (\<forall>m < nat (int (card (w_get_all_vertices g [])) - num_clusters).
         (\<exists>cs cs'. merge_loop (\<lambda>t. greedy_merge iter g) 0 m (singleton_clusters iter g) = Inr cs
              \<and> merge_loop (\<lambda>t. greedy_merge iter g) 0 (Suc m) (singleton_clusters iter g) = Inr cs'
              \<and> merged cs cs')
       \<and> (\<exists>cs cs'. merge_loop (\<lambda>t. random_merge iter g (rnd t)) 0 m (singleton_clusters iter g) = Inr cs
              \<and> merge_loop (\<lambda>t. random_merge iter g (rnd t)) 0 (Suc m) (singleton_clusters iter g)
                  = Inr cs'
              \<and> merged cs cs'))
    \<and> (int (card (w_get_all_vertices g [])) \<le> num_clusters \<longrightarrow>
         find_clusters_greedy iter g num_clusters = Inr (singleton_clusters iter g)
       \<and> find_clusters_random rnd iter g num_clusters = Inr (singleton_clusters iter g))"
proof -
  let ?V = "w_get_all_vertices g []"
  let ?n = "card ?V"
  let ?s = "singleton_clusters iter g"
  let ?M = "nat (int ?n - num_clusters)"
  let ?G = "\<lambda>t :: nat. greedy_merge iter g"
  let ?R = "\<lambda>t. random_merge iter g (rnd t)"
  note w = book_only_weights[OF bo]
  note sp = singleton_clusters_props[OF it, of g]
  note len = sp(1) and cl = sp(2) and pt = sp(3)
  have gstep: "\<exists>i1 i2. i1 < length cs \<and> i2 < length cs \<and> i1 \<noteq> i2
      \<and> ?G t cs = Inr (merge_into cs i1 i2)"
    if "clusters_of g cs" "partition_of ?V cs" "2 \<le> length cs" for t cs
    using greedy_merge_step[OF it w that(1,3)] .
  have rstep: "\<exists>i1 i2. i1 < length cs \<and> i2 < length cs \<and> i1 \<noteq> i2
      \<and> ?R t cs = Inr (merge_into cs i1 i2)"
    if "clusters_of g cs" "partition_of ?V cs" "2 \<le> length cs" for t cs
    using random_merge_step[OF it w that(1,3)] .
  have sing: "list_all (\<lambda>c. \<exists>book. c = {book}) ?s"
    by (simp add: singleton_clusters_def list_all_iff image_iff)
  have gr: "find_clusters_greedy iter g num_clusters = merge_loop ?G 0 ?M ?s"
    by (simp add: find_clusters_greedy_def Let_def len)
  have ra: "find_clusters_random rnd iter g num_clusters = merge_loop ?R 0 ?M ?s"
    by (simp add: find_clusters_random_def Let_def len)
  have count: "(\<exists>cs. merge_loop ?G 0 m ?s = Inr cs \<and> length cs = ?n - m \<and> partition_of ?V cs)
       \<and> (\<exists>cs. merge_loop ?R 0 m ?s = Inr cs \<and> length cs = ?n - m \<and> partition_of ?V cs)"
    if m: "m \<le> ?M" for m
  proof -
    from m k len have b: "m = 0 \<or> m < length ?s" by auto
    from merge_loop_count[where step = ?G and g = g and V = ?V, OF gstep cl pt b, of 0]
    have 1: "\<exists>cs. merge_loop ?G 0 m ?s = Inr cs \<and> length cs = ?n - m \<and> partition_of ?V cs"
      unfolding len by blast
    from merge_loop_count[where step = ?R and g = g and V = ?V, OF rstep cl pt b, of 0]
    have 2: "\<exists>cs. merge_loop ?R 0 m ?s = Inr cs \<and> length cs = ?n - m \<and> partition_of ?V cs"
      unfolding len by blast
    from 1 2 show ?thesis ..
  qed
  have nxt: "(\<exists>cs cs'. merge_loop ?G 0 m ?s = Inr cs \<and> merge_loop ?G 0 (Suc m) ?s = Inr cs'
          \<and> merged cs cs')
       \<and> (\<exists>cs cs'. merge_loop ?R 0 m ?s = Inr cs \<and> merge_loop ?R 0 (Suc m) ?s = Inr cs'
          \<and> merged cs cs')"
    if m: "m < ?M" for m
  proof -
    from m k len have b: "Suc m < length ?s" by auto
    from merge_loop_next[where step = ?G and g = g and V = ?V, OF gstep cl pt b, of 0]
    have 1: "\<exists>cs cs'. merge_loop ?G 0 m ?s = Inr cs \<and> merge_loop ?G 0 (Suc m) ?s = Inr cs'
          \<and> merged cs cs'" .
    from merge_loop_next[where step = ?R and g = g and V = ?V, OF rstep cl pt b, of 0]
    have 2: "\<exists>cs cs'. merge_loop ?R 0 m ?s = Inr cs \<and> merge_loop ?R 0 (Suc m) ?s = Inr cs'
          \<and> merged cs cs'" .
    from 1 2 show ?thesis ..
  qed
  have none: "find_clusters_greedy iter g num_clusters = Inr ?s
       \<and> find_clusters_random rnd iter g num_clusters = Inr ?s"
    if "int ?n \<le> num_clusters"
    using that by (simp add: gr ra)
  show ?thesis
    by (intro conjI allI impI len sing pt gr ra)
       (use count nxt none in \<open>blast+\<close>)
qed

theorem find_clusters_merge_count_witness:
  "enumerates (sorted_list_of_set :: nat set \<Rightarrow> nat list)
   \<and> book_only shelf_book_graph
   \<and> (1::int) \<le> 2
   \<and> create_book_graph sorted_list_of_set w_shelf_graph (1 / 20) ''unweighted''
       = Inr shelf_book_graph
   \<and> card (w_get_all_vertices shelf_book_graph []) = 4
   \<and> (\<exists>cs. find_clusters_greedy sorted_list_of_set shelf_book_graph 2 = Inr cs
          \<and> length cs = 2 \<and> partition_of (w_get_all_vertices shelf_book_graph []) cs)
   \<and> (\<exists>cs. find_clusters_random (\<lambda>t. 2) sorted_list_of_set shelf_book_graph 2 = Inr cs
          \<and> length cs = 2 \<and> partition_of (w_get_all_vertices shelf_book_graph []) cs)
   \<and> (\<exists>cs cs'. merge_loop (\<lambda>t. greedy_merge sorted_list_of_set shelf_book_graph) 0 1
            (singleton_clusters sorted_list_of_set shelf_book_graph) = Inr cs
          \<and> find_clusters_greedy sorted_list_of_set shelf_book_graph 2 = Inr cs'
          \<and> merged cs cs')
   \<and> find_clusters_greedy sorted_list_of_set shelf_book_graph 2 = Inr [{3}, {4, 2, 1}]"
proof -
  let ?g = "shelf_book_graph"
  let ?it = "sorted_list_of_set :: nat set \<Rightarrow> nat list"
  let ?s = "singleton_clusters ?it ?g"
  let ?G = "\<lambda>t :: nat. greedy_merge ?it ?g"
  let ?R = "\<lambda>t :: nat. random_merge ?it ?g 2"
  have e: "enumerates ?it"
    by (simp add: enumerates_def)
  have b: "book_only ?g"
    by (simp add: shelf_book_graph_eq book_only_def)
  have k: "(1::int) \<le> 2" by simp
  have n: "card (w_get_all_vertices ?g []) = 4"
    by (simp add: shelf_book_graph_eq w_get_all_vertices_def)
  have M: "nat (int (card (w_get_all_vertices ?g [])) - 2) = 2"
    by (simp add: n)
  have v: "find_clusters_greedy ?it ?g 2 = Inr [{3}, {4, 2, 1}]"
    by code_simp
  note t = find_clusters_merge_count[OF e b k, of "\<lambda>t. 2", unfolded M]
  note gr = t[THEN conjunct2, THEN conjunct2, THEN conjunct2, THEN conjunct1]
  note ra = t[THEN conjunct2, THEN conjunct2, THEN conjunct2, THEN conjunct2, THEN conjunct1]
  note cnt = t[THEN conjunct2, THEN conjunct2, THEN conjunct2, THEN conjunct2, THEN conjunct2,
      THEN conjunct1, rule_format, of 2, OF le_refl]
  note nxt = t[THEN conjunct2, THEN conjunct2, THEN conjunct2, THEN conjunct2, THEN conjunct2,
      THEN conjunct2, THEN conjunct1, rule_format, of 1]
  have two: "(4::nat) - 2 = 2" by simp
  from cnt[THEN conjunct1] have c1: "\<exists>cs. find_clusters_greedy ?it ?g 2 = Inr cs
      \<and> length cs = 2 \<and> partition_of (w_get_all_vertices ?g []) cs"
    unfolding gr n two .
  from cnt[THEN conjunct2] have c2: "\<exists>cs. find_clusters_random (\<lambda>t. 2) ?it ?g 2 = Inr cs
      \<and> length cs = 2 \<and> partition_of (w_get_all_vertices ?g []) cs"
    unfolding ra n two .
  have "(1::nat) < 2" by simp
  from nxt[OF this, THEN conjunct1] have c3: "\<exists>cs cs'. merge_loop ?G 0 1 ?s = Inr cs
      \<and> find_clusters_greedy ?it ?g 2 = Inr cs' \<and> merged cs cs'"
    unfolding gr by (simp only: numeral_2_eq_2 One_nat_def)
  show ?thesis
    by (intro conjI e b k create_book_graph_shelf n c1 c2 c3 v)
qed

end
